theory Spec2Isabelle
  imports Main "HOL-Library.AList" "HOL-Library.Char_ord" "HOL-Library.List_Lexorder"
begin

section \<open>Python values, dictionaries and truthiness\<close>

text \<open>
  The flow runner of \<^verbatim>\<open>src/prefect/engine/flow_runner.py\<close> is embedded as pure
  functions. A Python \<^verbatim>\<open>dict\<close> is an association list in insertion order (keys
  distinct), read with \<open>map_of\<close> and written with \<open>AList.update\<close>, which
  overwrites in place and appends a new key at the end, as a \<^verbatim>\<open>dict\<close> does. A
  Python \<^verbatim>\<open>set\<close> is a list without duplicates; the order in which a \<^verbatim>\<open>set\<close> is
  iterated is not fixed by Python, the model iterates it in insertion order.
\<close>

datatype pyval = PNone | PBool bool | PInt int | PStr string | PDict "(string \<times> pyval) list"

type_synonym ('k, 'v) dict = "('k \<times> 'v) list"

text \<open>Truth value testing of \<^verbatim>\<open>if x:\<close> on the values a context can hold.\<close>

fun truthy :: "pyval \<Rightarrow> bool" where
  "truthy PNone = False"
| "truthy (PBool b) = b"
| "truthy (PInt i) = (i \<noteq> 0)"
| "truthy (PStr s) = (s \<noteq> [])"
| "truthy (PDict d) = (d \<noteq> [])"

text \<open>\<^verbatim>\<open>d.update(other)\<close>, and \<^verbatim>\<open>dict(d, **other)\<close> on a copy.\<close>

definition dict_update :: "('k, 'v) dict \<Rightarrow> ('k, 'v) dict \<Rightarrow> ('k, 'v) dict" where
  "dict_update d other = foldl (\<lambda>acc (k, v). AList.update k v acc) d other"

type_synonym 'a pyset = "'a list"

text \<open>\<^verbatim>\<open>set(xs)\<close>, \<^verbatim>\<open>a.union(b)\<close> (and \<^verbatim>\<open>a.update(b)\<close>), \<^verbatim>\<open>a.difference(b)\<close>.\<close>

definition pyset :: "'a list \<Rightarrow> 'a pyset" where
  "pyset xs = remdups xs"

definition union :: "'a pyset \<Rightarrow> 'a list \<Rightarrow> 'a pyset" where
  "union a b = a @ remdups (filter (\<lambda>x. x \<notin> set a) b)"

definition difference :: "'a pyset \<Rightarrow> 'a list \<Rightarrow> 'a pyset" where
  "difference a b = filter (\<lambda>x. x \<notin> set b) a"

text \<open>\<^verbatim>\<open>[d[k] for k in ks]\<close> on a plain \<^verbatim>\<open>dict\<close>: a missing key raises.\<close>

fun getitems :: "('k \<times> 'v) list \<Rightarrow> 'k list \<Rightarrow> unit + 'v list" where
  "getitems d [] = Inr []"
| "getitems d (k # ks) =
     (case map_of d k of
        None \<Rightarrow> Inl ()
      | Some v \<Rightarrow> (case getitems d ks of Inl e \<Rightarrow> Inl e | Inr vs \<Rightarrow> Inr (v # vs)))"

text \<open>\<^verbatim>\<open>x or default\<close> for an optional list or dict: \<^verbatim>\<open>None\<close> and the empty
  container are both falsy.\<close>

definition or_else :: "'a list option \<Rightarrow> 'a list \<Rightarrow> 'a list" where
  "or_else x d = (case x of None \<Rightarrow> d | Some [] \<Rightarrow> d | Some (v # vs) \<Rightarrow> v # vs)"

text \<open>\<^verbatim>\<open>min(xs, default=d)\<close>.\<close>

definition min_default :: "int list \<Rightarrow> int \<Rightarrow> int" where
  "min_default xs d = (case xs of [] \<Rightarrow> d | x # ys \<Rightarrow> fold min ys x)"

text \<open>\<^verbatim>\<open>sep.join(xs)\<close>.\<close>

fun join :: "string \<Rightarrow> string list \<Rightarrow> string" where
  "join sep [] = []"
| "join sep [x] = x"
| "join sep (x # y # ys) = x @ sep @ join sep (y # ys)"

section \<open>Tasks, edges and states\<close>

text \<open>A task is a node with an identity (its name here) and a set of tags.\<close>

datatype task = Task (task_name: string) (tags: "string list")

datatype edge =
  Edge (upstream_task: task) (downstream_task: task) (key: "string option") (mapped: bool)

text \<open>
  Modelled from the spec: the classes of \<^verbatim>\<open>prefect.engine.state\<close> are not in
  \<^verbatim>\<open>src/\<close>. The state table of the specification lists ten variants in three
  categories: not started (Pending, Scheduled, Retrying), in progress (Running),
  finished (Success, Cached, Skipped are success-like; Failed, TriggerFailed, TimedOut
  are failed-like). Every variant carries a message and a result; \<open>cached_inputs\<close>
  is the field the flow runner reads.
\<close>

datatype variant =
  Pending | Scheduled | Retrying | Running | Success | Cached | Failed | TriggerFailed |
  Skipped | TimedOut

text \<open>The exceptions other than \<^verbatim>\<open>ENDRUN\<close> that the flow runner raises itself.\<close>

datatype error = ValueError string | AssertionError | KeyError

text \<open>A message is a string or, in \<^verbatim>\<open>Failed(message=exc)\<close>, an exception.\<close>

datatype msg = Text string | Exc error

record 'r state =
  variant :: variant
  message :: "msg option"
  result :: "'r option"
  cached_inputs :: "(string, pyval) dict"

definition mk_state :: "variant \<Rightarrow> msg option \<Rightarrow> 'r option \<Rightarrow> 'r state" where
  "mk_state v m r = \<lparr>variant = v, message = m, result = r, cached_inputs = []\<rparr>"

definition is_pending :: "'r state \<Rightarrow> bool" where
  "is_pending s = (variant s \<in> {Pending, Scheduled, Retrying})"

definition is_running :: "'r state \<Rightarrow> bool" where
  "is_running s = (variant s = Running)"

definition is_finished :: "'r state \<Rightarrow> bool" where
  "is_finished s = (variant s \<in> {Success, Cached, Failed, TriggerFailed, Skipped, TimedOut})"

definition is_successful :: "'r state \<Rightarrow> bool" where
  "is_successful s = (variant s \<in> {Success, Cached, Skipped})"

definition is_failed :: "'r state \<Rightarrow> bool" where
  "is_failed s = (variant s \<in> {Failed, TriggerFailed, TimedOut})"

text \<open>
  Modelled from the spec: the class tests \<^verbatim>\<open>isinstance(s, Pending)\<close> and
  \<^verbatim>\<open>isinstance(s, (Failed, Retrying))\<close>. The class hierarchy is not in \<^verbatim>\<open>src/\<close>;
  the not-started variants count as instances of Pending and the failed-like variants
  as instances of Failed, following the categories of the state table.
\<close>

definition isinstance_Pending :: "'r state \<Rightarrow> bool" where
  "isinstance_Pending s = (variant s \<in> {Pending, Scheduled, Retrying})"

definition isinstance_Failed_Retrying :: "'r state \<Rightarrow> bool" where
  "isinstance_Failed_Retrying s = (variant s \<in> {Failed, TriggerFailed, TimedOut, Retrying})"

text \<open>
  The state of a task is one state, or for a mapped task the sequence of its child
  states. \<open>flatten_seq\<close> is modelled from the spec
  (\<^verbatim>\<open>prefect.utilities.collections\<close> is not in \<^verbatim>\<open>src/\<close>): a mapped task contributes
  its child states one by one.
\<close>

datatype tstate = Scalar "pyval state" | Mapped "tstate list"

fun flatten_seq :: "tstate \<Rightarrow> pyval state list" where
  "flatten_seq (Scalar s) = [s]"
| "flatten_seq (Mapped xs) = concat (map flatten_seq xs)"

text \<open>
  What \<^verbatim>\<open>task_states\<close> holds for a task: a state the caller supplied (or a waited
  one), or the future an executor returned. A future is modelled with the value it
  resolves to.
\<close>

datatype obj = Val tstate | Fut tstate

text \<open>The result of a flow state: any value, or the \<^verbatim>\<open>return_states\<close> mapping.\<close>

datatype flow_result = Value pyval | ReturnStates "(task, tstate) dict"

type_synonym flow_state = "flow_result state"

datatype exn = ENDRUN flow_state | Error error

section \<open>The flow\<close>

text \<open>
  Modelled from the spec: \<^verbatim>\<open>prefect.core.Flow\<close> is not in \<^verbatim>\<open>src/\<close>. A flow is a set
  of tasks plus edges, a \<^verbatim>\<open>mapped\<close> flag per task (\<^verbatim>\<open>task_info[task]["mapped"]\<close>),
  optional reference tasks, a throttle map and state handlers. A handler is called as
  \<^verbatim>\<open>handler(flow, old_state, new_state)\<close>; the model closes it over its first argument.
\<close>

record flow =
  flow_name :: string
  flow_version :: string
  tasks :: "task list"
  edges :: "edge list"
  task_info :: "task \<Rightarrow> bool"
  reference :: "task list option"
  flow_throttle :: "(string, int) dict"
  flow_state_handlers :: "(flow_state \<Rightarrow> flow_state \<Rightarrow> flow_state) list"

text \<open>Modelled from the spec: \<^verbatim>\<open>Flow.edges_to(task)\<close>, the edges that end in the task.\<close>

definition edges_to :: "flow \<Rightarrow> task \<Rightarrow> edge list" where
  "edges_to f t = filter (\<lambda>e. downstream_task e = t) (edges f)"

definition upstream_tasks :: "flow \<Rightarrow> task \<Rightarrow> task list" where
  "upstream_tasks f t = map upstream_task (edges_to f t)"

definition downstream_tasks :: "flow \<Rightarrow> task \<Rightarrow> task list" where
  "downstream_tasks f t = map downstream_task (filter (\<lambda>e. upstream_task e = t) (edges f))"

text \<open>Modelled from the spec: root tasks have no incoming edge, terminal tasks no
  outgoing edge; the reference tasks default to the terminal tasks and can be set by
  the user.\<close>

definition root_tasks :: "flow \<Rightarrow> task list" where
  "root_tasks f = filter (\<lambda>t. edges_to f t = []) (tasks f)"

definition terminal_tasks :: "flow \<Rightarrow> task pyset" where
  "terminal_tasks f = filter (\<lambda>t. \<forall>e \<in> set (edges f). upstream_task e \<noteq> t) (pyset (tasks f))"

definition reference_tasks :: "flow \<Rightarrow> task pyset" where
  "reference_tasks f = (case reference f of None \<Rightarrow> terminal_tasks f | Some r \<Rightarrow> pyset r)"

text \<open>
  Modelled from the spec: \<^verbatim>\<open>Flow.sorted_tasks(root_tasks)\<close> yields a topological order
  restricted to the subgraph reachable from the given roots. \<open>reachable\<close> collects the
  tasks reachable along edges (a worklist search); \<open>toposort\<close> repeatedly emits the
  remaining tasks none of whose upstream tasks remains, and fails on a cycle (the spec
  leaves that case out: a Flow guarantees acyclicity). Without roots the search starts
  from the flow's root tasks (\<^verbatim>\<open>start_tasks\<close> "defaults to
  \<^verbatim>\<open>self.flow.root_tasks()\<close>", docstring of \<^verbatim>\<open>FlowRunner.run\<close>).
\<close>

function reachable :: "flow \<Rightarrow> task list \<Rightarrow> task list \<Rightarrow> task list" where
  "reachable f seen [] = seen"
| "reachable f seen (t # ws) =
     (if t \<in> set seen then reachable f seen ws
      else reachable f (seen @ [t]) (downstream_tasks f t @ ws))"
  by pat_completeness auto
termination
proof (relation "measures
    [\<lambda>(f, seen, ws). card ((set (map downstream_task (edges f)) \<union> set ws) - set seen),
     \<lambda>(f, seen, ws). length ws]", goal_cases)
  case 1
  show ?case by simp
next
  case (2 f seen t ws)
  then have "insert t (set (map downstream_task (edges f)) \<union> set ws) - set seen =
    (set (map downstream_task (edges f)) \<union> set ws) - set seen"
    by auto
  then show ?case by simp
next
  case (3 f seen t ws)
  let ?D = "set (map downstream_task (edges f))"
  have sub: "set (downstream_tasks f t) \<subseteq> ?D"
    by (auto simp: downstream_tasks_def)
  have "(?D \<union> set (downstream_tasks f t @ ws)) - set (seen @ [t]) \<subset>
    (?D \<union> set (t # ws)) - set seen"
    using 3 sub by auto
  then have "card ((?D \<union> set (downstream_tasks f t @ ws)) - set (seen @ [t])) <
    card ((?D \<union> set (t # ws)) - set seen)"
    by (intro psubset_card_mono) auto
  then show ?case by simp
qed

definition ready :: "flow \<Rightarrow> task list \<Rightarrow> task list" where
  "ready f remaining =
     filter (\<lambda>t. \<forall>u \<in> set (upstream_tasks f t). u \<notin> set remaining) remaining"

function toposort :: "flow \<Rightarrow> task list \<Rightarrow> task list option" where
  "toposort f remaining =
     (if remaining = [] then Some []
      else if ready f remaining = [] then None
      else map_option (\<lambda>rest. ready f remaining @ rest)
             (toposort f (filter (\<lambda>t. t \<notin> set (ready f remaining)) remaining)))"
  by pat_completeness auto
termination
proof (relation "measure (\<lambda>(f, remaining). length remaining)", goal_cases)
  case 1
  show ?case by simp
next
  case (2 f remaining)
  then obtain t where t: "t \<in> set (ready f remaining)"
    by (cases "ready f remaining") auto
  then have "t \<in> set remaining"
    by (simp add: ready_def)
  with t have "length (filter (\<lambda>t. t \<notin> set (ready f remaining)) remaining) < length remaining"
    by (intro length_filter_less) auto
  then show ?case by simp
qed

declare toposort.simps [simp del]

definition sorted_tasks :: "flow \<Rightarrow> task list \<Rightarrow> task list option" where
  "sorted_tasks f roots =
     toposort f (reachable f [] (if roots = [] then root_tasks f else roots))"

section \<open>The executor\<close>

text \<open>
  Modelled from the spec: the executors of \<^verbatim>\<open>prefect.engine.executors\<close> are not in
  \<^verbatim>\<open>src/\<close>. \<^verbatim>\<open>submit\<close> schedules one call and returns a future, \<^verbatim>\<open>map\<close> is its
  fan-out version and returns a future of a sequence state, \<^verbatim>\<open>wait\<close> blocks until a
  future is resolved and returns any other value as it is, \<^verbatim>\<open>queue(size)\<close> is a
  bounded queue. How \<^verbatim>\<open>map\<close> splits its inputs is left to the executor
  (\<open>map_states\<close>).
\<close>

datatype queue = Queue (maxsize: int) (tickets: "int list")

text \<open>The keyword arguments of one \<^verbatim>\<open>task_runner.run\<close> call; the
  \<^verbatim>\<open>timeout_handler\<close>, which is the executor's in every call, is left out.\<close>

record call =
  call_state :: "obj option"
  upstream_states :: "(edge, obj) dict"
  inputs :: "(string, pyval) dict"
  ignore_trigger :: bool
  call_context :: "(string, pyval) dict"
  call_queues :: "queue list"

record executor =
  executor_id :: string
  map_states :: "(call \<Rightarrow> tstate) \<Rightarrow> call \<Rightarrow> tstate"

definition submit :: "executor \<Rightarrow> (call \<Rightarrow> tstate) \<Rightarrow> call \<Rightarrow> obj" where
  "submit ex fn c = Fut (fn c)"

definition executor_map :: "executor \<Rightarrow> (call \<Rightarrow> tstate) \<Rightarrow> call \<Rightarrow> obj" where
  "executor_map ex fn c = Fut (map_states ex fn c)"

fun wait :: "obj \<Rightarrow> tstate" where
  "wait (Val s) = s"
| "wait (Fut s) = s"

text \<open>What the executor is asked to do, in order: the dispatch of a task by
  \<^verbatim>\<open>submit\<close> or \<^verbatim>\<open>map\<close>, a \<^verbatim>\<open>wait\<close> on one value, a \<^verbatim>\<open>wait\<close> on the states of
  a set of tasks.\<close>

datatype event = Submit task call | MapCall task call | Wait obj | WaitAll "task list"

text \<open>Lines 289-294: one queue per throttled tag, filled with \<^verbatim>\<open>size\<close> tickets.\<close>

definition make_queue :: "int \<Rightarrow> queue" where
  "make_queue n = Queue n (map int [0..<nat n])"

definition make_queues :: "(string, int) dict \<Rightarrow> (string, queue) dict" where
  "make_queues throttle = dict_update [] (map (\<lambda>(tag, n). (tag, make_queue n)) throttle)"

section \<open>The flow runner\<close>

record flow_runner =
  flow :: flow
  task_runner_cls :: "task \<Rightarrow> call \<Rightarrow> tstate"
  state_handlers :: "(flow_state \<Rightarrow> flow_state \<Rightarrow> flow_state) list"

text \<open>The module globals the runner reads: the ambient \<^verbatim>\<open>prefect.context\<close> and
  \<^verbatim>\<open>DEFAULT_EXECUTOR\<close>.\<close>

record globals =
  prefect_context :: "(string, pyval) dict"
  DEFAULT_EXECUTOR :: executor

text \<open>Lines 62-76.\<close>

definition call_runner_target_handlers :: "flow_runner \<Rightarrow> flow_state \<Rightarrow> flow_state \<Rightarrow> flow_state" where
  "call_runner_target_handlers self old_state new_state =
     foldl (\<lambda>new_state handler. handler old_state new_state) new_state
       (flow_state_handlers (flow self))"

text \<open>
  Modelled from the spec: \<^verbatim>\<open>Runner.handle_state_change\<close> and the decorator
  \<^verbatim>\<open>call_state_handlers\<close> (\<^verbatim>\<open>prefect.engine.runner\<close> is not in \<^verbatim>\<open>src/\<close>). On any
  state change the registered handlers run in order, each receiving the old and the new
  state and returning a possibly substituted new state; a step that leaves the state as
  it is calls no handler. The decorator is applied to the outcome of the method body.
\<close>

definition handle_state_change :: "flow_runner \<Rightarrow> flow_state \<Rightarrow> flow_state \<Rightarrow> flow_state" where
  "handle_state_change self old_state new_state =
     foldl (\<lambda>new_state handler. handler old_state new_state)
       (call_runner_target_handlers self old_state new_state) (state_handlers self)"

definition call_state_handlers :: "flow_runner \<Rightarrow> flow_state \<Rightarrow> exn + flow_state \<Rightarrow> exn + flow_state" where
  "call_state_handlers self state outcome =
     (case outcome of
        Inr new_state \<Rightarrow>
          Inr (if new_state \<noteq> state then handle_state_change self state new_state
               else new_state)
      | Inl (ENDRUN new_state) \<Rightarrow>
          Inl (ENDRUN (if new_state \<noteq> state then handle_state_change self state new_state
                       else new_state))
      | Inl (Error e) \<Rightarrow> Inl (Error e))"

text \<open>Lines 180-206, the method body.\<close>

definition check_flow_is_pending_or_running :: "flow_state \<Rightarrow> exn + flow_state" where
  "check_flow_is_pending_or_running state =
     (if is_finished state then Inl (ENDRUN state)
      else if \<not> (is_pending state \<or> is_running state) then Inl (ENDRUN state)
      else Inr state)"

text \<open>Lines 208-228, the method body.\<close>

definition set_flow_to_running :: "flow_state \<Rightarrow> exn + flow_state" where
  "set_flow_to_running state =
     (if is_pending state then Inr (mk_state Running (Some (Text ''Running flow.'')) None)
      else if is_running state then Inr state
      else Inl (ENDRUN state))"

subsection \<open>Dispatch (lines 277-346)\<close>

text \<open>Lines 277-279: \<^verbatim>\<open>task_states\<close> is a \<^verbatim>\<open>defaultdict\<close>; indexing a missing key
  stores the default and returns it.\<close>

definition default_state :: obj where
  "default_state = Val (Scalar (mk_state Failed (Some (Text ''Task state not available.'')) None))"

definition getitem :: "(task, obj) dict \<Rightarrow> task \<Rightarrow> obj \<times> (task, obj) dict" where
  "getitem task_states t =
     (case map_of task_states t of
        Some v \<Rightarrow> (v, task_states)
      | None \<Rightarrow> (default_state, task_states @ [(t, default_state)]))"

text \<open>Lines 302-303.\<close>

fun get_upstream_states ::
  "edge list \<Rightarrow> (edge, obj) dict \<Rightarrow> (task, obj) dict \<Rightarrow> (edge, obj) dict \<times> (task, obj) dict" where
  "get_upstream_states [] upstream task_states = (upstream, task_states)"
| "get_upstream_states (e # es) upstream task_states =
     (case getitem task_states (upstream_task e) of
        (v, task_states') \<Rightarrow> get_upstream_states es (AList.update e v upstream) task_states')"

text \<open>Lines 305-311. A list is the state of a mapped task and is skipped; any other
  supplied value must be an instance of Pending.\<close>

definition harvest_inputs ::
  "task list \<Rightarrow> (task, obj) dict \<Rightarrow> task \<Rightarrow> error + (string, pyval) dict" where
  "harvest_inputs start_tasks task_states task =
     (if task \<in> set start_tasks \<and> map_of task_states task \<noteq> None then
        (case fst (getitem task_states task) of
           Val (Mapped xs) \<Rightarrow> Inr []
         | Val (Scalar passed_state) \<Rightarrow>
             if isinstance_Pending passed_state
             then Inr (dict_update [] (cached_inputs passed_state))
             else Inl AssertionError
         | Fut s \<Rightarrow> Inl AssertionError)
      else Inr [])"

text \<open>Lines 315-317; \<^verbatim>\<open>task.tags\<close> is a set, sorted by tag name, and a queue object
  counts as true.\<close>

definition task_queues :: "(string, queue) dict \<Rightarrow> task \<Rightarrow> queue list" where
  "task_queues queues task = List.map_filter (map_of queues) (sort (remdups (tags task)))"

text \<open>Lines 331-336: the upstream states of mapped upstream tasks are waited on, and
  the waited values replace them.\<close>

definition upstream_mapped :: "flow \<Rightarrow> (edge, obj) dict \<Rightarrow> (edge, obj) dict" where
  "upstream_mapped f upstream =
     map (\<lambda>(e, fu). (e, Val (wait fu))) (filter (\<lambda>(e, fu). task_info f (upstream_task e)) upstream)"

definition wait_events :: "flow \<Rightarrow> (edge, obj) dict \<Rightarrow> event list" where
  "wait_events f upstream =
     map (\<lambda>(e, fu). Wait fu) (filter (\<lambda>(e, fu). task_info f (upstream_task e)) upstream)"

text \<open>One iteration of the loop of line 296: the events it causes and the new
  \<^verbatim>\<open>task_states\<close>, or the error it raises.\<close>

definition dispatch_task ::
  "flow_runner \<Rightarrow> executor \<Rightarrow> task list \<Rightarrow> (task, (string, pyval) dict) dict \<Rightarrow>
   (string, pyval) dict \<Rightarrow> (string, queue) dict \<Rightarrow> (task, obj) dict \<Rightarrow> task \<Rightarrow>
   event list \<times> (error + (task, obj) dict)" where
  "dispatch_task self ex start_tasks task_contexts ctx queues task_states task =
     (case get_upstream_states (edges_to (flow self) task) [] task_states of
        (upstream, task_states1) \<Rightarrow>
          (case harvest_inputs start_tasks task_states1 task of
             Inl e \<Rightarrow> ([], Inl e)
           | Inr task_inputs \<Rightarrow>
               let c = \<lparr>call_state = map_of task_states1 task,
                        upstream_states = upstream,
                        inputs = task_inputs,
                        ignore_trigger = (task \<in> set start_tasks),
                        call_context = dict_update ctx
                          (case map_of task_contexts task of None \<Rightarrow> [] | Some d \<Rightarrow> d),
                        call_queues = task_queues queues task\<rparr>
               in if task_info (flow self) task then
                    ([MapCall task c],
                     Inr (AList.update task
                            (executor_map ex (task_runner_cls self task) c) task_states1))
                  else
                    let c' = c\<lparr>upstream_states :=
                                 dict_update upstream (upstream_mapped (flow self) upstream)\<rparr>
                    in (wait_events (flow self) upstream @ [Submit task c'],
                        Inr (AList.update task
                               (submit ex (task_runner_cls self task) c') task_states1))))"

fun dispatch_loop ::
  "('s \<Rightarrow> task \<Rightarrow> event list \<times> (error + 's)) \<Rightarrow> task list \<Rightarrow> 's \<Rightarrow> event list \<times> (error + 's)" where
  "dispatch_loop step [] s = ([], Inr s)"
| "dispatch_loop step (t # ts) s =
     (case step s t of
        (evs, Inl e) \<Rightarrow> (evs, Inl e)
      | (evs, Inr s') \<Rightarrow>
          (case dispatch_loop step ts s' of (evs', r) \<Rightarrow> (evs @ evs', r)))"

subsection \<open>Collecting results (lines 351-373)\<close>

definition is_failed_or_retrying :: "tstate \<Rightarrow> bool" where
  "is_failed_or_retrying ts =
     (case ts of Scalar s \<Rightarrow> isinstance_Failed_Retrying s | Mapped xs \<Rightarrow> False)"

text \<open>Lines 357-373: the \<^verbatim>\<open>wait\<close> that is made (the tasks whose states are waited
  on), \<^verbatim>\<open>final_states\<close>, and \<^verbatim>\<open>return_tasks\<close> after the failed tasks were added.\<close>

definition collect_results ::
  "flow \<Rightarrow> bool \<Rightarrow> task pyset \<Rightarrow> (task, obj) dict \<Rightarrow> event \<times> (task, tstate) dict \<times> task pyset" where
  "collect_results f return_failed return_tasks task_states =
     (if return_failed then
        let final_states = map (\<lambda>(t, fu). (t, wait fu)) task_states;
            failed_tasks = map fst (filter (\<lambda>(t, s). is_failed_or_retrying s) final_states)
        in (WaitAll (map fst task_states), final_states, union return_tasks failed_tasks)
      else
        let waited = union (union (terminal_tasks f) (reference_tasks f)) return_tasks;
            final_states = map (\<lambda>t. (t, wait (fst (getitem task_states t)))) waited
        in (WaitAll waited, final_states, return_tasks))"

subsection \<open>The flow state (lines 375-410)\<close>

definition aggregate :: "flow \<Rightarrow> (task, tstate) dict \<Rightarrow> task pyset \<Rightarrow> error + flow_state" where
  "aggregate f final_states return_tasks =
     (case getitems final_states (terminal_tasks f) of
        Inl e \<Rightarrow> Inl KeyError
      | Inr terminal_vals \<Rightarrow>
     (case getitems final_states (reference_tasks f) of
        Inl e \<Rightarrow> Inl KeyError
      | Inr key_vals \<Rightarrow>
     (case getitems final_states return_tasks of
        Inl e \<Rightarrow> Inl KeyError
      | Inr return_vals \<Rightarrow>
        let terminal_states = pyset (concat (map flatten_seq terminal_vals));
            key_states = pyset (concat (map flatten_seq key_vals));
            return_states = zip return_tasks return_vals
        in Inr (if \<not> (\<forall>s \<in> set terminal_states. is_finished s) then
                  mk_state Pending (Some (Text ''Some terminal tasks are still pending.''))
                    (Some (ReturnStates return_states))
                else if \<exists>s \<in> set key_states. is_failed s then
                  mk_state Failed (Some (Text ''Some reference tasks failed.''))
                    (Some (ReturnStates return_states))
                else if \<forall>s \<in> set key_states. is_successful s then
                  mk_state Success (Some (Text ''All reference tasks succeeded.''))
                    (Some (ReturnStates return_states))
                else
                  mk_state Success (Some (Text ''No reference tasks failed.''))
                    (Some (ReturnStates return_states))))))"

subsection \<open>\<^verbatim>\<open>get_flow_run_state\<close> (lines 230-410, the method body)\<close>

text \<open>Lines 277-346: the defaults, the queues and the loop over the sorted tasks.
  \<open>ctx\<close> is \<^verbatim>\<open>prefect.context\<close> inside the \<^verbatim>\<open>with\<close> block of \<^verbatim>\<open>run\<close>. The result is
  the list of executor events and \<^verbatim>\<open>task_states\<close> after the loop, or the exception
  raised.\<close>

definition dispatch_tasks ::
  "flow_runner \<Rightarrow> (string, pyval) dict \<Rightarrow> (task, obj) dict option \<Rightarrow> task list option \<Rightarrow>
   (task, (string, pyval) dict) dict option \<Rightarrow> executor \<Rightarrow> (string, int) dict option \<Rightarrow>
   event list \<times> (error + (task, obj) dict)" where
  "dispatch_tasks self ctx task_states start_tasks task_contexts ex throttle =
     (let task_states = or_else task_states [];
          start_tasks = or_else start_tasks [];
          task_contexts = or_else task_contexts [];
          throttle = or_else throttle [];
          queues = make_queues throttle
      in case sorted_tasks (flow self) start_tasks of
           None \<Rightarrow> ([], Inl (ValueError ''Flows must be acyclic!''))
         | Some order \<Rightarrow>
             dispatch_loop (dispatch_task self ex start_tasks task_contexts ctx queues)
               order task_states)"

definition get_flow_run_state ::
  "flow_runner \<Rightarrow> (string, pyval) dict \<Rightarrow> flow_state \<Rightarrow> (task, obj) dict option \<Rightarrow>
   task list option \<Rightarrow> task pyset \<Rightarrow> (task, (string, pyval) dict) dict option \<Rightarrow> executor \<Rightarrow>
   bool \<Rightarrow> (string, int) dict option \<Rightarrow> event list \<times> (exn + flow_state)" where
  "get_flow_run_state self ctx state task_states start_tasks return_tasks task_contexts ex
     return_failed throttle =
     (if \<not> is_running state then ([], Inl (ENDRUN state))
      else
        (case dispatch_tasks self ctx task_states start_tasks task_contexts ex throttle of
           (evs, Inl e) \<Rightarrow> (evs, Inl (Error e))
         | (evs, Inr task_states') \<Rightarrow>
             (case collect_results (flow self) return_failed (pyset return_tasks) task_states' of
                (ev, final_states, return_tasks') \<Rightarrow>
                  (evs @ [ev],
                   case aggregate (flow self) final_states return_tasks' of
                     Inl e \<Rightarrow> Inl (Error e)
                   | Inr s \<Rightarrow> Inr s))))"

subsection \<open>\<^verbatim>\<open>run\<close> (lines 78-178)\<close>

record run_args =
  arg_state :: "flow_state option"
  arg_task_states :: "(task, obj) dict option"
  arg_start_tasks :: "task list option"
  arg_return_tasks :: "task list option"
  arg_return_failed :: bool
  arg_parameters :: "(string, pyval) dict option"
  arg_executor :: "executor option"
  arg_context :: "(string, pyval) dict option"
  arg_task_contexts :: "(task, (string, pyval) dict) dict option"
  arg_throttle :: "(string, int) dict option"

text \<open>A call with every keyword argument left at its default.\<close>

definition no_args :: run_args where
  "no_args = \<lparr>arg_state = None, arg_task_states = None, arg_start_tasks = None,
     arg_return_tasks = None, arg_return_failed = False, arg_parameters = None,
     arg_executor = None, arg_context = None, arg_task_contexts = None,
     arg_throttle = None\<rparr>"

text \<open>Line 129.\<close>

definition effective_throttle :: "flow_runner \<Rightarrow> run_args \<Rightarrow> (string, int) dict" where
  "effective_throttle self a = or_else (arg_throttle a) (flow_throttle (flow self))"

text \<open>Lines 131-138.\<close>

definition throttle_message :: "(string, int) dict \<Rightarrow> string" where
  "throttle_message throttle =
     ''Cannot throttle tags '' @
     join '', '' (map (\<lambda>(tag, num). [CHR 0x22] @ tag @ [CHR 0x22])
                    (filter (\<lambda>(tag, num). num \<le> 0) throttle)) @
     '' - an invalid value less than 1 was provided.''"

text \<open>Lines 143-152: the context of the run, and the flag read from it.\<close>

definition run_context :: "flow_runner \<Rightarrow> globals \<Rightarrow> run_args \<Rightarrow> (string, pyval) dict" where
  "run_context self g a =
     dict_update (prefect_context g)
       (dict_update (or_else (arg_context a) [])
          [(''_flow_name'', PStr (flow_name (flow self))),
           (''_flow_version'', PStr (flow_version (flow self))),
           (''_parameters'', case arg_parameters a of None \<Rightarrow> PNone | Some p \<Rightarrow> PDict p),
           (''_executor_id'',
            PStr (executor_id (case arg_executor a of None \<Rightarrow> DEFAULT_EXECUTOR g | Some e \<Rightarrow> e)))])"

definition raise_on_exception :: "flow_runner \<Rightarrow> globals \<Rightarrow> run_args \<Rightarrow> bool" where
  "raise_on_exception self g a =
     truthy (case map_of (run_context self g a) ''_raise_on_exception'' of
               None \<Rightarrow> PBool False | Some v \<Rightarrow> v)"

text \<open>Lines 155-166, the body of the \<^verbatim>\<open>try\<close> statement: the three decorated
  methods in sequence.\<close>

definition try_body :: "flow_runner \<Rightarrow> globals \<Rightarrow> run_args \<Rightarrow> event list \<times> (exn + flow_state)" where
  "try_body self g a =
     (let state = (case arg_state a of None \<Rightarrow> mk_state Pending None None | Some s \<Rightarrow> s)
      in case call_state_handlers self state (check_flow_is_pending_or_running state) of
           Inl x \<Rightarrow> ([], Inl x)
         | Inr state1 \<Rightarrow>
             (case call_state_handlers self state1 (set_flow_to_running state1) of
                Inl x \<Rightarrow> ([], Inl x)
              | Inr state2 \<Rightarrow>
                  (case get_flow_run_state self (run_context self g a) state2
                          (arg_task_states a) (arg_start_tasks a)
                          (pyset (or_else (arg_return_tasks a) []))
                          (arg_task_contexts a)
                          (case arg_executor a of None \<Rightarrow> DEFAULT_EXECUTOR g | Some e \<Rightarrow> e)
                          (arg_return_failed a)
                          (Some (effective_throttle self a)) of
                     (evs, r) \<Rightarrow> (evs, call_state_handlers self state2 r))))"

definition run :: "flow_runner \<Rightarrow> globals \<Rightarrow> run_args \<Rightarrow> event list \<times> (error + flow_state)" where
  "run self g a =
     (let throttle = effective_throttle self a;
          return_tasks = pyset (or_else (arg_return_tasks a) [])
      in if min_default (map snd throttle) 1 \<le> 0 then
           ([], Inl (ValueError (throttle_message throttle)))
         else if difference return_tasks (tasks (flow self)) \<noteq> [] then
           ([], Inl (ValueError ''Some tasks in return_tasks were not found in the flow.''))
         else
           (case try_body self g a of
              (evs, Inl (ENDRUN s)) \<Rightarrow> (evs, Inr s)
            | (evs, Inl (Error e)) \<Rightarrow>
                if raise_on_exception self g a then (evs, Inl e)
                else (evs, Inr (mk_state Failed (Some (Exc e)) None))
            | (evs, Inr s) \<Rightarrow> (evs, Inr s)))"

text \<open>The two checks of lines 130 and 140 pass.\<close>

definition preflight_ok :: "flow_runner \<Rightarrow> run_args \<Rightarrow> bool" where
  "preflight_ok self a =
     (0 < min_default (map snd (effective_throttle self a)) 1 \<and>
      difference (pyset (or_else (arg_return_tasks a) [])) (tasks (flow self)) = [])"

section \<open>Notions of the specification\<close>

text \<open>
  The terminal states and the key states of the specification: the final states of the
  terminal (reference) tasks, a mapped task contributing its child states one by one.
\<close>

definition child_states :: "(task, tstate) dict \<Rightarrow> task list \<Rightarrow> pyval state set" where
  "child_states final_states ts =
     (\<Union>t \<in> set ts. case map_of final_states t of None \<Rightarrow> {} | Some v \<Rightarrow> set (flatten_seq v))"

text \<open>The \<^verbatim>\<open>return_states\<close> mapping: each return task with its final state.\<close>

definition return_states :: "(task, tstate) dict \<Rightarrow> task list \<Rightarrow> (task, tstate) dict" where
  "return_states final_states return_tasks =
     List.map_filter (\<lambda>t. map_option (Pair t) (map_of final_states t)) return_tasks"

text \<open>The ordered classification of section 4.4 of the specification (the first
  matching rule wins), with the messages of lines 385, 393, 400 and 407.\<close>

definition classification :: "pyval state set \<Rightarrow> pyval state set \<Rightarrow> variant \<times> string" where
  "classification terminal_states key_states =
     (if \<exists>s \<in> terminal_states. \<not> is_finished s then
        (Pending, ''Some terminal tasks are still pending.'')
      else if \<exists>s \<in> key_states. is_failed s then (Failed, ''Some reference tasks failed.'')
      else if \<forall>s \<in> key_states. is_successful s then (Success, ''All reference tasks succeeded.'')
      else (Success, ''No reference tasks failed.''))"

text \<open>What \<^verbatim>\<open>task_states[t]\<close> yields: the stored value, or the default of lines
  277-279.\<close>

definition task_state :: "(task, obj) dict \<Rightarrow> task \<Rightarrow> obj" where
  "task_state task_states t = (case map_of task_states t of None \<Rightarrow> default_state | Some v \<Rightarrow> v)"

text \<open>The tasks dispatched by \<^verbatim>\<open>submit\<close> or \<^verbatim>\<open>map\<close>, in the order of the events.\<close>

fun dispatched_task :: "event \<Rightarrow> task option" where
  "dispatched_task (Submit t c) = Some t"
| "dispatched_task (MapCall t c) = Some t"
| "dispatched_task (Wait fu) = None"
| "dispatched_task (WaitAll ts) = None"

definition dispatched :: "event list \<Rightarrow> task list" where
  "dispatched evs = List.map_filter dispatched_task evs"

text \<open>In a list of dispatched tasks, \<open>u\<close> is dispatched before (the first dispatch of)
  \<open>v\<close>.\<close>

definition dispatched_before :: "task list \<Rightarrow> task \<Rightarrow> task \<Rightarrow> bool" where
  "dispatched_before ts u v = (u \<in> set (takeWhile (\<lambda>x. x \<noteq> v) ts) \<and> v \<in> set ts)"

text \<open>The edges of a flow as a relation from upstream to downstream task.\<close>

definition edge_rel :: "flow \<Rightarrow> (task \<times> task) set" where
  "edge_rel f = (\<lambda>e. (upstream_task e, downstream_task e)) ` set (edges f)"

text \<open>Line 128: the executor of a run.\<close>

definition run_executor :: "globals \<Rightarrow> run_args \<Rightarrow> executor" where
  "run_executor g a = (case arg_executor a of None \<Rightarrow> DEFAULT_EXECUTOR g | Some e \<Rightarrow> e)"

text \<open>One iteration of the loop of line 296 with the arguments that \<^verbatim>\<open>run\<close> passes
  on.\<close>

definition run_step ::
  "flow_runner \<Rightarrow> globals \<Rightarrow> run_args \<Rightarrow> (task, obj) dict \<Rightarrow> task \<Rightarrow>
   event list \<times> (error + (task, obj) dict)" where
  "run_step self g a =
     dispatch_task self (run_executor g a) (or_else (arg_start_tasks a) [])
       (or_else (arg_task_contexts a) []) (run_context self g a)
       (make_queues (or_else (Some (effective_throttle self a)) []))"

text \<open>The call of a dispatch event, and the future that the dispatch stores in
  \<^verbatim>\<open>task_states\<close> (lines 320 and 337).\<close>

fun event_call :: "event \<Rightarrow> call option" where
  "event_call (Submit t c) = Some c"
| "event_call (MapCall t c) = Some c"
| "event_call (Wait fu) = None"
| "event_call (WaitAll ts) = None"

fun stored :: "flow_runner \<Rightarrow> executor \<Rightarrow> event \<Rightarrow> (task \<times> obj) option" where
  "stored self ex (Submit t c) = Some (t, submit ex (task_runner_cls self t) c)"
| "stored self ex (MapCall t c) = Some (t, executor_map ex (task_runner_cls self t) c)"
| "stored self ex (Wait fu) = None"
| "stored self ex (WaitAll ts) = None"

text \<open>
  The states that the events of a run leave in \<^verbatim>\<open>task_states\<close>, and what
  \<^verbatim>\<open>task_states[u]\<close> yields in a run after the events \<open>evs\<close>: the future stored by the
  latest dispatch of \<open>u\<close>, else the state the caller supplied for \<open>u\<close>, else the default
  of lines 277-279.
\<close>

fun states_after ::
  "flow_runner \<Rightarrow> executor \<Rightarrow> (task, obj) dict \<Rightarrow> event list \<Rightarrow> (task, obj) dict" where
  "states_after self ex ts [] = ts"
| "states_after self ex ts (ev # evs) =
     states_after self ex
       (case stored self ex ev of None \<Rightarrow> ts | Some (t, v) \<Rightarrow> AList.update t v ts) evs"

definition held_state :: "flow_runner \<Rightarrow> globals \<Rightarrow> run_args \<Rightarrow> event list \<Rightarrow> task \<Rightarrow> obj" where
  "held_state self g a evs u =
     task_state (states_after self (run_executor g a) (or_else (arg_task_states a) []) evs) u"

section \<open>Example flows\<close>

text \<open>A chain \<open>A \<rightarrow> M \<rightarrow> N \<rightarrow> C\<close> in which \<open>M\<close> and \<open>N\<close> are mapped tasks, run by an
  executor that resolves a mapped call to a one-element sequence and a task runner
  under which task \<open>N\<close> fails and every other task succeeds.\<close>

definition ex_A :: task where "ex_A = Task ''A'' []"
definition ex_M :: task where "ex_M = Task ''M'' [''db'']"
definition ex_N :: task where "ex_N = Task ''N'' []"
definition ex_C :: task where "ex_C = Task ''C'' [''db'', ''api'']"

definition ex_flow :: flow where
  "ex_flow = \<lparr>flow_name = ''example'', flow_version = ''1'',
     tasks = [ex_A, ex_M, ex_N, ex_C],
     edges = [Edge ex_A ex_M (Some ''x'') True, Edge ex_M ex_N (Some ''y'') True,
              Edge ex_N ex_C (Some ''z'') False],
     task_info = (\<lambda>t. t = ex_M \<or> t = ex_N), reference = None, flow_throttle = [],
     flow_state_handlers = []\<rparr>"

definition ex_task_runner :: "task \<Rightarrow> call \<Rightarrow> tstate" where
  "ex_task_runner t c = Scalar (mk_state (if t = ex_N then Failed else Success) None None)"

definition ex_runner :: flow_runner where
  "ex_runner = \<lparr>flow = ex_flow, task_runner_cls = ex_task_runner, state_handlers = []\<rparr>"

definition ex_executor :: executor where
  "ex_executor = \<lparr>executor_id = ''local'', map_states = (\<lambda>fn c. Mapped [fn c])\<rparr>"

definition ex_globals :: globals where
  "ex_globals = \<lparr>prefect_context = [], DEFAULT_EXECUTOR = ex_executor\<rparr>"

text \<open>A task outside the example flow, a finished flow state, and two calls that
  start at \<open>M\<close> with a supplied state that is not pending.\<close>

definition ex_X :: task where "ex_X = Task ''X'' []"

definition ex_done :: flow_state where
  "ex_done = mk_state Success (Some (Text ''done'')) (Some (Value (PInt 1)))"

definition ex_args_assert :: run_args where
  "ex_args_assert = no_args\<lparr>arg_start_tasks := Some [ex_M],
     arg_task_states := Some [(ex_M, Val (Scalar (mk_state Success None None)))]\<rparr>"

definition ex_args_raise :: run_args where
  "ex_args_raise = ex_args_assert\<lparr>arg_context := Some [(''_raise_on_exception'', PBool True)]\<rparr>"

text \<open>Variants of the example in which the task runner takes the outcome of each task
  from a table (\<open>Success\<close> when the task is not listed) and the reference tasks are
  given; a running flow state.\<close>

definition ex_outcomes :: "(task \<times> variant) list \<Rightarrow> task \<Rightarrow> call \<Rightarrow> tstate" where
  "ex_outcomes tbl t c =
     Scalar (mk_state (case map_of tbl t of None \<Rightarrow> Success | Some v \<Rightarrow> v) None None)"

definition ex_runner_with :: "(task \<times> variant) list \<Rightarrow> task list option \<Rightarrow> flow_runner" where
  "ex_runner_with tbl ref =
     \<lparr>flow = ex_flow\<lparr>reference := ref\<rparr>, task_runner_cls = ex_outcomes tbl, state_handlers = []\<rparr>"

definition ex_running :: flow_state where
  "ex_running = mk_state Running (Some (Text ''Running flow.'')) None"

text \<open>A pending, a successful and a cached state with cached inputs, a call that starts
  at \<open>M\<close> with a supplied state, a call that starts at \<open>N\<close>, and two edges of the
  example.\<close>

definition ex_cached :: "pyval state" where
  "ex_cached = (mk_state Pending None None)\<lparr>cached_inputs := [(''x'', PInt 7)]\<rparr>"

definition ex_success_cached :: "pyval state" where
  "ex_success_cached = (mk_state Success None None)\<lparr>cached_inputs := [(''x'', PInt 7)]\<rparr>"

definition ex_cached_finished :: "pyval state" where
  "ex_cached_finished = (mk_state Cached None None)\<lparr>cached_inputs := [(''x'', PInt 7)]\<rparr>"

definition ex_args_supplied :: "pyval state \<Rightarrow> run_args" where
  "ex_args_supplied s = no_args\<lparr>arg_start_tasks := Some [ex_M],
     arg_task_states := Some [(ex_M, Val (Scalar s))]\<rparr>"

definition ex_args_from_N :: run_args where
  "ex_args_from_N = no_args\<lparr>arg_start_tasks := Some [ex_N]\<rparr>"

definition ex_edge_MN :: edge where "ex_edge_MN = Edge ex_M ex_N (Some ''y'') True"
definition ex_edge_NC :: edge where "ex_edge_NC = Edge ex_N ex_C (Some ''z'') False"

text \<open>Two independent tasks \<open>A\<close> and \<open>B\<close>, of which \<open>B\<close> fails, and a partial run that
  starts at \<open>B\<close>.\<close>

definition ex_B :: task where "ex_B = Task ''B'' []"

definition ex_pair_runner :: flow_runner where
  "ex_pair_runner =
     \<lparr>flow = \<lparr>flow_name = ''pair'', flow_version = ''1'', tasks = [ex_A, ex_B], edges = [],
        task_info = (\<lambda>t. False), reference = None, flow_throttle = [],
        flow_state_handlers = []\<rparr>,
      task_runner_cls = ex_outcomes [(ex_B, Failed)], state_handlers = []\<rparr>"

definition ex_args_partial :: "bool \<Rightarrow> run_args" where
  "ex_args_partial return_failed =
     no_args\<lparr>arg_start_tasks := Some [ex_B], arg_return_failed := return_failed\<rparr>"

section \<open>Properties\<close>

subsection \<open>Auxiliary facts\<close>

lemma run_preflight_ok:
  "preflight_ok self a \<Longrightarrow>
   run self g a =
     (case try_body self g a of
        (evs, Inl (ENDRUN s)) \<Rightarrow> (evs, Inr s)
      | (evs, Inl (Error e)) \<Rightarrow>
          if raise_on_exception self g a then (evs, Inl e)
          else (evs, Inr (mk_state Failed (Some (Exc e)) None))
      | (evs, Inr s) \<Rightarrow> (evs, Inr s))"
  by (simp add: run_def preflight_ok_def Let_def)

lemma is_running_not_pending: "is_running s \<Longrightarrow> \<not> is_pending s"
  by (simp add: is_running_def is_pending_def)

subsection \<open>The flow-level transitions\<close>

text \<open>
  Claim C7. For every starting flow state: if it is finished, or neither pending nor
  running, the body of \<open>check_flow_is_pending_or_running\<close> raises \<open>ENDRUN\<close> with that
  very state, and a \<open>run\<close> that passes the two pre-flight checks and starts from it
  returns it unchanged without any executor event; the body of \<open>set_flow_to_running\<close>
  maps a pending state to \<open>Running\<close> (message "Running flow.") and returns a running state
  as it is.
\<close>

theorem flow_state_checks:
  "(is_finished state \<or> \<not> (is_pending state \<or> is_running state) \<longrightarrow>
      check_flow_is_pending_or_running state = Inl (ENDRUN state) \<and>
      (preflight_ok self a \<and> arg_state a = Some state \<longrightarrow> run self g a = ([], Inr state))) \<and>
   (is_pending state \<longrightarrow>
      set_flow_to_running state = Inr (mk_state Running (Some (Text ''Running flow.'')) None)) \<and>
   (is_running state \<longrightarrow> set_flow_to_running state = Inr state)"
proof (intro conjI impI)
  assume h: "is_finished state \<or> \<not> (is_pending state \<or> is_running state)"
  then show c: "check_flow_is_pending_or_running state = Inl (ENDRUN state)"
    by (auto simp: check_flow_is_pending_or_running_def)
  assume p: "preflight_ok self a \<and> arg_state a = Some state"
  have "try_body self g a = ([], Inl (ENDRUN state))"
    using p c by (simp add: try_body_def call_state_handlers_def)
  then show "run self g a = ([], Inr state)"
    using p by (simp add: run_preflight_ok)
next
  assume "is_pending state"
  then show "set_flow_to_running state = Inr (mk_state Running (Some (Text ''Running flow.'')) None)"
    by (simp add: set_flow_to_running_def)
next
  assume "is_running state"
  then show "set_flow_to_running state = Inr state"
    by (simp add: set_flow_to_running_def is_running_not_pending)
qed

theorem flow_state_checks_witness:
  "check_flow_is_pending_or_running (mk_state Success None None) =
     Inl (ENDRUN (mk_state Success None None)) \<and>
   run ex_runner ex_globals (no_args\<lparr>arg_state := Some (mk_state Success None None)\<rparr>) =
     ([], Inr (mk_state Success None None)) \<and>
   set_flow_to_running (mk_state Pending None None) =
     Inr (mk_state Running (Some (Text ''Running flow.'')) None) \<and>
   set_flow_to_running (mk_state Running None None) = Inr (mk_state Running None None)"
proof -
  have f: "is_finished (mk_state Success None None :: flow_state)"
    by (simp add: is_finished_def mk_state_def)
  have p: "preflight_ok ex_runner (no_args\<lparr>arg_state := Some (mk_state Success None None)\<rparr>)"
    by code_simp
  have a: "arg_state (no_args\<lparr>arg_state := Some (mk_state Success None None)\<rparr>) =
    Some (mk_state Success None None)"
    by simp
  have pe: "is_pending (mk_state Pending None None :: flow_state)"
    by (simp add: is_pending_def mk_state_def)
  have ru: "is_running (mk_state Running None None :: flow_state)"
    by (simp add: is_running_def mk_state_def)
  show ?thesis
    using flow_state_checks [of "mk_state Success None None" ex_runner
        "no_args\<lparr>arg_state := Some (mk_state Success None None)\<rparr>" ex_globals]
      flow_state_checks [of "mk_state Pending None None"]
      flow_state_checks [of "mk_state Running None None"]
      f p a pe ru
    by simp
qed

lemma min_default_le: "min_default xs 1 \<le> 0 \<longleftrightarrow> (\<exists>x \<in> set xs. x \<le> 0)"
proof (cases xs)
  case Nil
  then show ?thesis by (simp add: min_default_def)
next
  case (Cons x ys)
  have "fold min ys x = Min (set (x # ys))"
    by (rule Min.set_eq_fold [symmetric])
  then show ?thesis
    using Cons by (simp add: min_default_def Min_le_iff del: set_simps) 
qed

lemma call_state_handlers_Error:
  "call_state_handlers self st r = Inl (Error e) \<longleftrightarrow> r = Inl (Error e)"
  by (auto simp: call_state_handlers_def split: sum.splits exn.splits)

lemma dispatch_task_error:
  "dispatch_task self ex st tc ctx qs s t = (evs, Inl e) \<Longrightarrow> e = AssertionError \<and> evs = []"
  by (auto simp: dispatch_task_def harvest_inputs_def Let_def
      split: prod.splits sum.splits if_splits obj.splits tstate.splits)

lemma dispatch_loop_error:
  "dispatch_loop (dispatch_task self ex st tc ctx qs) ts s = (evs, Inl e) \<Longrightarrow> e = AssertionError"
proof (induction ts arbitrary: s evs)
  case Nil
  then show ?case by simp
next
  case (Cons t ts)
  then show ?case
    by (auto split: prod.splits sum.splits dest: dispatch_task_error)
qed

lemma aggregate_error: "aggregate f fs rt = Inl e \<Longrightarrow> e = KeyError"
  by (auto simp: aggregate_def Let_def split: sum.splits)

lemma dispatch_tasks_error:
  "dispatch_tasks self ctx ts st tc ex th = (evs, Inl e) \<Longrightarrow>
   e \<in> {AssertionError, ValueError ''Flows must be acyclic!''}"
  by (auto simp: dispatch_tasks_def Let_def split: option.splits dest: dispatch_loop_error)

lemma get_flow_run_state_error:
  "get_flow_run_state self ctx state ts st rt tc ex rf th = (evs, Inl (Error e)) \<Longrightarrow>
   e \<in> {AssertionError, KeyError, ValueError ''Flows must be acyclic!''}"
  by (auto simp: get_flow_run_state_def
      split: if_splits prod.splits sum.splits
      dest: dispatch_tasks_error aggregate_error)

lemma try_body_error:
  "try_body self g a = (evs, Inl (Error e)) \<Longrightarrow>
   e \<in> {AssertionError, KeyError, ValueError ''Flows must be acyclic!''}"
  unfolding try_body_def Let_def
  by (auto simp: call_state_handlers_Error check_flow_is_pending_or_running_def
      set_flow_to_running_def
      split: sum.splits prod.splits if_splits dest: get_flow_run_state_error)

lemma map_of_dict_update: "map_of (dict_update d other) = map_of d ++ map_of (rev other)"
  unfolding dict_update_def
proof (induction other arbitrary: d)
  case Nil
  then show ?case by simp
next
  case (Cons x xs)
  obtain k v where x: "x = (k, v)" by (cases x)
  show ?case
    by (auto simp: x Cons.IH update_conv' map_of_append fun_eq_iff map_add_def
        split: option.splits)
qed

lemma throttle_message_neq:
  "throttle_message th \<noteq> ''Some tasks in return_tasks were not found in the flow.''"
  "throttle_message th \<noteq> ''Flows must be acyclic!''"
  by (simp_all add: throttle_message_def)

subsection \<open>Pre-flight validation\<close>

text \<open>
  Claim C3. The throttle in force is the one passed to \<open>run\<close> or, when none (or an
  empty one) is passed, the flow's. If some value of it is \<open>\<le> 0\<close>, \<open>run\<close> raises the
  throttle \<open>ValueError\<close> (the spec's ConfigError) and no executor event has happened;
  if all its values are strictly positive (also when it is empty), \<open>run\<close> never raises
  the throttle error.
\<close>

theorem throttle_validation:
  "effective_throttle self a =
     (case arg_throttle a of None \<Rightarrow> flow_throttle (flow self)
      | Some [] \<Rightarrow> flow_throttle (flow self) | Some (x # xs) \<Rightarrow> x # xs) \<and>
   ((\<exists>(tag, num) \<in> set (effective_throttle self a). num \<le> 0) \<longrightarrow>
      run self g a = ([], Inl (ValueError (throttle_message (effective_throttle self a))))) \<and>
   ((\<forall>(tag, num) \<in> set (effective_throttle self a). 0 < num) \<longrightarrow>
      (\<forall>th. snd (run self g a) \<noteq> Inl (ValueError (throttle_message th))))"
proof (intro conjI impI allI)
  show "effective_throttle self a =
     (case arg_throttle a of None \<Rightarrow> flow_throttle (flow self)
      | Some [] \<Rightarrow> flow_throttle (flow self) | Some (x # xs) \<Rightarrow> x # xs)"
    by (simp add: effective_throttle_def or_else_def)
next
  assume "\<exists>(tag, num) \<in> set (effective_throttle self a). num \<le> 0"
  then have "min_default (map snd (effective_throttle self a)) 1 \<le> 0"
    by (force simp: min_default_le)
  then show "run self g a = ([], Inl (ValueError (throttle_message (effective_throttle self a))))"
    by (simp add: run_def Let_def)
next
  fix th
  assume pos: "\<forall>(tag, num) \<in> set (effective_throttle self a). 0 < num"
  then have ok: "\<not> min_default (map snd (effective_throttle self a)) 1 \<le> 0"
    by (force simp: min_default_le)
  show "snd (run self g a) \<noteq> Inl (ValueError (throttle_message th))"
  proof
    assume r: "snd (run self g a) = Inl (ValueError (throttle_message th))"
    obtain evs r' where tb: "try_body self g a = (evs, r')"
      by (cases "try_body self g a")
    from r ok tb have "\<exists>evs. try_body self g a = (evs, Inl (Error (ValueError (throttle_message th))))"
      by (auto simp: run_def Let_def throttle_message_neq throttle_message_neq [symmetric]
          split: if_splits sum.splits exn.splits)
    then show False
      using throttle_message_neq by (auto dest!: try_body_error)
  qed
qed

theorem throttle_validation_witness:
  "run ex_runner ex_globals (no_args\<lparr>arg_throttle := Some [(''db'', 0)]\<rparr>) =
     ([], Inl (ValueError (throttle_message [(''db'', 0)]))) \<and>
   run (ex_runner\<lparr>flow := ex_flow\<lparr>flow_throttle := [(''db'', 2), (''api'', - 1)]\<rparr>\<rparr>) ex_globals no_args =
     ([], Inl (ValueError (throttle_message [(''db'', 2), (''api'', - 1)]))) \<and>
   (\<forall>th. snd (run ex_runner ex_globals (no_args\<lparr>arg_throttle := Some [(''db'', 2)]\<rparr>)) \<noteq>
      Inl (ValueError (throttle_message th))) \<and>
   (\<forall>th. snd (run ex_runner ex_globals no_args) \<noteq> Inl (ValueError (throttle_message th)))"
proof -
  let ?r2 = "ex_runner\<lparr>flow := ex_flow\<lparr>flow_throttle := [(''db'', 2), (''api'', - 1)]\<rparr>\<rparr>"
  have e1: "effective_throttle ex_runner (no_args\<lparr>arg_throttle := Some [(''db'', 0)]\<rparr>) =
      [(''db'', 0)]"
    by code_simp
  have e2: "effective_throttle ?r2 no_args = [(''db'', 2), (''api'', - 1)]"
    by code_simp
  have e3: "effective_throttle ex_runner (no_args\<lparr>arg_throttle := Some [(''db'', 2)]\<rparr>) =
      [(''db'', 2)]"
    by code_simp
  have e4: "effective_throttle ex_runner no_args = []"
    by code_simp
  show ?thesis
    using throttle_validation [of ex_runner "no_args\<lparr>arg_throttle := Some [(''db'', 0)]\<rparr>" ex_globals]
      throttle_validation [of ?r2 no_args ex_globals]
      throttle_validation [of ex_runner "no_args\<lparr>arg_throttle := Some [(''db'', 2)]\<rparr>" ex_globals]
      throttle_validation [of ex_runner no_args ex_globals]
    unfolding e1 e2 e3 e4 by simp
qed

text \<open>
  Claim C8. If \<open>return_tasks\<close> contains a task that is not in the flow's tasks, \<open>run\<close>
  raises a \<open>ValueError\<close> (the spec's ConfigError) and no executor event has happened;
  if \<open>return_tasks\<close> is a subset of the flow's tasks (or empty), the error about
  \<open>return_tasks\<close> is not raised.
\<close>

theorem return_tasks_validation:
  "((\<exists>t \<in> set (or_else (arg_return_tasks a) []). t \<notin> set (tasks (flow self))) \<longrightarrow>
      (\<exists>m. run self g a = ([], Inl (ValueError m)))) \<and>
   (set (or_else (arg_return_tasks a) []) \<subseteq> set (tasks (flow self)) \<longrightarrow>
      snd (run self g a) \<noteq>
        Inl (ValueError ''Some tasks in return_tasks were not found in the flow.''))"
proof (intro conjI impI)
  assume "\<exists>t \<in> set (or_else (arg_return_tasks a) []). t \<notin> set (tasks (flow self))"
  then have "difference (pyset (or_else (arg_return_tasks a) [])) (tasks (flow self)) \<noteq> []"
    by (auto simp: difference_def pyset_def filter_empty_conv)
  then show "\<exists>m. run self g a = ([], Inl (ValueError m))"
    by (simp add: run_def Let_def)
next
  assume "set (or_else (arg_return_tasks a) []) \<subseteq> set (tasks (flow self))"
  then have ok: "difference (pyset (or_else (arg_return_tasks a) [])) (tasks (flow self)) = []"
    by (auto simp: difference_def pyset_def filter_empty_conv)
  show "snd (run self g a) \<noteq> Inl (ValueError ''Some tasks in return_tasks were not found in the flow.'')"
  proof
    assume r: "snd (run self g a) = Inl (ValueError ''Some tasks in return_tasks were not found in the flow.'')"
    obtain evs r' where tb: "try_body self g a = (evs, r')"
      by (cases "try_body self g a")
    from r ok tb have "\<exists>evs. try_body self g a =
        (evs, Inl (Error (ValueError ''Some tasks in return_tasks were not found in the flow.'')))"
      using throttle_message_neq(1) [of "effective_throttle self a"]
      by (auto simp: run_def Let_def split: if_splits sum.splits exn.splits)
    then show False
      by (auto dest!: try_body_error)
  qed
qed

theorem return_tasks_validation_witness:
  "(\<exists>m. run ex_runner ex_globals (no_args\<lparr>arg_return_tasks := Some [ex_C, ex_X]\<rparr>) =
      ([], Inl (ValueError m))) \<and>
   snd (run ex_runner ex_globals (no_args\<lparr>arg_return_tasks := Some [ex_C]\<rparr>)) \<noteq>
     Inl (ValueError ''Some tasks in return_tasks were not found in the flow.'') \<and>
   snd (run ex_runner ex_globals no_args) \<noteq>
     Inl (ValueError ''Some tasks in return_tasks were not found in the flow.'')"
proof -
  have h1: "\<exists>t \<in> set (or_else (arg_return_tasks (no_args\<lparr>arg_return_tasks := Some [ex_C, ex_X]\<rparr>)) []).
      t \<notin> set (tasks (flow ex_runner))"
    by code_simp
  have h2: "set (or_else (arg_return_tasks (no_args\<lparr>arg_return_tasks := Some [ex_C]\<rparr>)) []) \<subseteq>
      set (tasks (flow ex_runner))"
    by code_simp
  have h3: "set (or_else (arg_return_tasks no_args) []) \<subseteq> set (tasks (flow ex_runner))"
    by code_simp
  show ?thesis
    using return_tasks_validation [of "no_args\<lparr>arg_return_tasks := Some [ex_C, ex_X]\<rparr>" ex_runner ex_globals]
      return_tasks_validation [of "no_args\<lparr>arg_return_tasks := Some [ex_C]\<rparr>" ex_runner ex_globals]
      return_tasks_validation [of no_args ex_runner ex_globals]
      h1 h2 h3
    by blast
qed

subsection \<open>Exceptions in the scheduling body\<close>

text \<open>
  Claim C2. In a \<open>run\<close> that passes the pre-flight checks, whatever the body of the
  \<open>try\<close> statement raises: an \<open>ENDRUN\<close> makes \<open>run\<close> return the state it carries; any
  other exception makes \<open>run\<close> return \<open>Failed\<close> with the exception as message when the
  flag \<open>_raise_on_exception\<close> of the run context is unset or falsy, and is raised to
  the caller when the flag is set.
\<close>

theorem scheduling_exceptions:
  "preflight_ok self a \<longrightarrow>
     (\<forall>evs s. try_body self g a = (evs, Inl (ENDRUN s)) \<longrightarrow> run self g a = (evs, Inr s)) \<and>
     (\<forall>evs e. try_body self g a = (evs, Inl (Error e)) \<and> \<not> raise_on_exception self g a \<longrightarrow>
        run self g a = (evs, Inr (mk_state Failed (Some (Exc e)) None))) \<and>
     (\<forall>evs e. try_body self g a = (evs, Inl (Error e)) \<and> raise_on_exception self g a \<longrightarrow>
        run self g a = (evs, Inl e)) \<and>
     (raise_on_exception self g a \<longleftrightarrow>
        (\<exists>v. map_of (run_context self g a) ''_raise_on_exception'' = Some v \<and> truthy v))"
proof (intro impI conjI allI)
  fix evs s
  assume "preflight_ok self a" "try_body self g a = (evs, Inl (ENDRUN s))"
  then show "run self g a = (evs, Inr s)"
    by (simp add: run_preflight_ok)
next
  fix evs e
  assume "preflight_ok self a"
    "try_body self g a = (evs, Inl (Error e)) \<and> \<not> raise_on_exception self g a"
  then show "run self g a = (evs, Inr (mk_state Failed (Some (Exc e)) None))"
    by (simp add: run_preflight_ok)
next
  fix evs e
  assume "preflight_ok self a"
    "try_body self g a = (evs, Inl (Error e)) \<and> raise_on_exception self g a"
  then show "run self g a = (evs, Inl e)"
    by (simp add: run_preflight_ok)
next
  show "raise_on_exception self g a \<longleftrightarrow>
        (\<exists>v. map_of (run_context self g a) ''_raise_on_exception'' = Some v \<and> truthy v)"
    by (auto simp: raise_on_exception_def split: option.splits)
qed

theorem scheduling_exceptions_witness:
  "run ex_runner ex_globals (no_args\<lparr>arg_state := Some ex_done\<rparr>) = ([], Inr ex_done) \<and>
   run ex_runner ex_globals ex_args_assert =
     ([], Inr (mk_state Failed (Some (Exc AssertionError)) None)) \<and>
   run ex_runner ex_globals ex_args_raise = ([], Inl AssertionError)"
proof -
  have p1: "preflight_ok ex_runner (no_args\<lparr>arg_state := Some ex_done\<rparr>)"
    by code_simp
  have p2: "preflight_ok ex_runner ex_args_assert"
    by code_simp
  have p3: "preflight_ok ex_runner ex_args_raise"
    by code_simp
  have t1: "try_body ex_runner ex_globals (no_args\<lparr>arg_state := Some ex_done\<rparr>) =
      ([], Inl (ENDRUN ex_done))"
    by code_simp
  have t2: "try_body ex_runner ex_globals ex_args_assert = ([], Inl (Error AssertionError))"
    by code_simp
  have t3: "try_body ex_runner ex_globals ex_args_raise = ([], Inl (Error AssertionError))"
    by code_simp
  have r2: "\<not> raise_on_exception ex_runner ex_globals ex_args_assert"
    by code_simp
  have r3: "raise_on_exception ex_runner ex_globals ex_args_raise"
    by code_simp
  show ?thesis
    using scheduling_exceptions [of ex_runner "no_args\<lparr>arg_state := Some ex_done\<rparr>" ex_globals]
      scheduling_exceptions [of ex_runner ex_args_assert ex_globals]
      scheduling_exceptions [of ex_runner ex_args_raise ex_globals]
      p1 p2 p3 t1 t2 t3 r2 r3
    by blast
qed

subsection \<open>The final flow state\<close>

lemma getitems_Inl: "getitems d ks = Inl u \<longleftrightarrow> (\<exists>k \<in> set ks. map_of d k = None)"
  by (induction ks) (auto split: option.splits sum.splits)

lemma getitems_Inr_ex: "\<forall>k \<in> set ks. map_of d k \<noteq> None \<Longrightarrow> \<exists>vs. getitems d ks = Inr vs"
  by (cases "getitems d ks") (auto simp: getitems_Inl)

lemma child_states_Nil: "child_states d [] = {}"
  by (simp add: child_states_def)

lemma child_states_Cons:
  "child_states d (k # ks) =
     (case map_of d k of None \<Rightarrow> {} | Some v \<Rightarrow> set (flatten_seq v)) \<union> child_states d ks"
  by (simp add: child_states_def)

lemma getitems_child_states:
  "getitems d ks = Inr vs \<Longrightarrow> set (concat (map flatten_seq vs)) = child_states d ks"
proof (induction ks arbitrary: vs)
  case Nil
  then show ?case by (simp add: child_states_Nil)
next
  case (Cons k ks)
  from Cons.prems obtain v vs' where v: "map_of d k = Some v" "getitems d ks = Inr vs'"
      "vs = v # vs'"
    by (auto split: option.splits sum.splits)
  with Cons.IH [of vs'] show ?case
    by (simp add: child_states_Cons)
qed

lemma getitems_return_states: "getitems d ks = Inr vs \<Longrightarrow> zip ks vs = return_states d ks"
  by (induction ks arbitrary: vs)
    (auto simp: return_states_def List.map_filter_simps split: option.splits sum.splits)

lemma aggregate_classification:
  "aggregate f fs rt =
     (if \<exists>t \<in> set (terminal_tasks f) \<union> set (reference_tasks f) \<union> set rt. map_of fs t = None
      then Inl KeyError
      else case classification (child_states fs (terminal_tasks f))
                  (child_states fs (reference_tasks f)) of
             (v, m) \<Rightarrow> Inr (mk_state v (Some (Text m)) (Some (ReturnStates (return_states fs rt)))))"
proof (cases "\<exists>t \<in> set (terminal_tasks f) \<union> set (reference_tasks f) \<union> set rt. map_of fs t = None")
  case True
  then have "(\<exists>u. getitems fs (terminal_tasks f) = Inl u) \<or>
      (\<exists>u. getitems fs (reference_tasks f) = Inl u) \<or> (\<exists>u. getitems fs rt = Inl u)"
    by (auto simp: getitems_Inl)
  then have "aggregate f fs rt = Inl KeyError"
    by (auto simp: aggregate_def split: sum.splits)
  with True show ?thesis by simp
next
  case False
  then obtain tv kv rv where g: "getitems fs (terminal_tasks f) = Inr tv"
      "getitems fs (reference_tasks f) = Inr kv" "getitems fs rt = Inr rv"
    using getitems_Inr_ex [of "terminal_tasks f" fs] getitems_Inr_ex [of "reference_tasks f" fs]
      getitems_Inr_ex [of rt fs]
    by auto
  have T: "set (pyset (concat (map flatten_seq tv))) = child_states fs (terminal_tasks f)"
    unfolding pyset_def set_remdups by (rule getitems_child_states [OF g(1)])
  have K: "set (pyset (concat (map flatten_seq kv))) = child_states fs (reference_tasks f)"
    unfolding pyset_def set_remdups by (rule getitems_child_states [OF g(2)])
  have R: "zip rt rv = return_states fs rt"
    by (rule getitems_return_states [OF g(3)])
  have "aggregate f fs rt =
    (case classification (child_states fs (terminal_tasks f))
                  (child_states fs (reference_tasks f)) of
       (v, m) \<Rightarrow> Inr (mk_state v (Some (Text m)) (Some (ReturnStates (return_states fs rt)))))"
    apply (simp only: aggregate_def g sum.case Let_def)
    apply (simp only: T K R)
    apply (simp add: classification_def)
    done
  then show ?thesis by (simp only: False if_False)
qed

text \<open>
  The classification of lines 375-410. A call of \<open>get_flow_run_state\<close> reaches aggregation
  when the flow state is running and the dispatch loop ends without an exception. Its
  outcome is then decided as follows. If a terminal, reference or return task has no
  final state, the lookup of lines 376-379 raises \<open>KeyError\<close>. Otherwise the method
  returns the state given by the first matching rule: \<open>Pending\<close> ("Some terminal tasks
  are still pending.") if some terminal state, after flattening, is not finished; else
  \<open>Failed\<close> if some key state is failed; else \<open>Success\<close> if all key states are
  successful; else \<open>Success\<close> ("No reference tasks failed."). In every rule the result
  of the state is the \<open>return_states\<close> mapping.
\<close>

theorem flow_state_classification:
  assumes "is_running state"
    and "dispatch_tasks self ctx task_states start_tasks task_contexts ex throttle =
      (evs, Inr task_states')"
    and "collect_results (flow self) return_failed (pyset return_tasks) task_states' =
      (ev, final_states, return_tasks')"
  shows "get_flow_run_state self ctx state task_states start_tasks return_tasks task_contexts
      ex return_failed throttle =
    (evs @ [ev],
     if \<exists>t \<in> set (terminal_tasks (flow self)) \<union> set (reference_tasks (flow self)) \<union>
           set return_tasks'. map_of final_states t = None
     then Inl (Error KeyError)
     else case classification (child_states final_states (terminal_tasks (flow self)))
                 (child_states final_states (reference_tasks (flow self))) of
            (v, m) \<Rightarrow> Inr (mk_state v (Some (Text m))
                           (Some (ReturnStates (return_states final_states return_tasks')))))"
  using assms
  by (simp add: get_flow_run_state_def aggregate_classification split: prod.splits)

theorem flow_state_classification_witness:
  "snd (get_flow_run_state (ex_runner_with [(ex_C, Retrying)] None) [] ex_running None None
     [ex_C] None ex_executor False None) =
   Inr (mk_state Pending (Some (Text ''Some terminal tasks are still pending.''))
     (Some (ReturnStates [(ex_C, Scalar (mk_state Retrying None None))]))) \<and>
   snd (get_flow_run_state (ex_runner_with [(ex_N, Failed)] (Some [ex_N])) [] ex_running None None
     [ex_C] None ex_executor False None) =
   Inr (mk_state Failed (Some (Text ''Some reference tasks failed.''))
     (Some (ReturnStates [(ex_C, Scalar (mk_state Success None None))]))) \<and>
   snd (get_flow_run_state (ex_runner_with [] None) [] ex_running None None
     [] None ex_executor False None) =
   Inr (mk_state Success (Some (Text ''All reference tasks succeeded.''))
     (Some (ReturnStates []))) \<and>
   snd (get_flow_run_state (ex_runner_with [(ex_A, Retrying)] (Some [ex_A])) [] ex_running None
     None [] None ex_executor False None) =
   Inr (mk_state Success (Some (Text ''No reference tasks failed.''))
     (Some (ReturnStates []))) \<and>
   snd (get_flow_run_state (ex_runner_with [] (Some [ex_A])) [] ex_running None (Some [ex_N])
     [] None ex_executor True None) =
   Inl (Error KeyError)"
proof -
  have h1: "is_running ex_running"
    by code_simp
  have W: "snd (get_flow_run_state self [] ex_running None st rt None ex_executor rf None) =
     (if \<exists>t \<in> set (terminal_tasks (flow self)) \<union> set (reference_tasks (flow self)) \<union>
           set (snd (snd X)). map_of (fst (snd X)) t = None
      then Inl (Error KeyError)
      else case classification (child_states (fst (snd X)) (terminal_tasks (flow self)))
                 (child_states (fst (snd X)) (reference_tasks (flow self))) of
            (v, m) \<Rightarrow> Inr (mk_state v (Some (Text m))
                           (Some (ReturnStates (return_states (fst (snd X)) (snd (snd X)))))))"
    if "\<not> isl (snd (dispatch_tasks self [] None st None ex_executor None))"
      and "X = collect_results (flow self) rf (pyset rt)
        (projr (snd (dispatch_tasks self [] None st None ex_executor None)))"
    for self st rt rf X
  proof -
    let ?D = "dispatch_tasks self [] None st None ex_executor None"
    from that(1) have h2: "?D = (fst ?D, Inr (projr (snd ?D)))"
      by (cases ?D; cases "snd ?D"; simp)
    have h3: "collect_results (flow self) rf (pyset rt) (projr (snd ?D)) =
        (fst X, fst (snd X), snd (snd X))"
      by (simp add: that(2))
    show ?thesis
      using flow_state_classification [OF h1 h2 h3] by simp
  qed
  have d1: "\<not> isl (snd (dispatch_tasks (ex_runner_with [(ex_C, Retrying)] None) [] None None None
      ex_executor None))"
    by code_simp
  have d2: "\<not> isl (snd (dispatch_tasks (ex_runner_with [(ex_N, Failed)] (Some [ex_N])) [] None None
      None ex_executor None))"
    by code_simp
  have d3: "\<not> isl (snd (dispatch_tasks (ex_runner_with [] None) [] None None None
      ex_executor None))"
    by code_simp
  have d4: "\<not> isl (snd (dispatch_tasks (ex_runner_with [(ex_A, Retrying)] (Some [ex_A])) [] None
      None None ex_executor None))"
    by code_simp
  have d5: "\<not> isl (snd (dispatch_tasks (ex_runner_with [] (Some [ex_A])) [] None (Some [ex_N])
      None ex_executor None))"
    by code_simp
  show ?thesis
    apply (intro conjI)
    subgoal by (subst W [OF d1 refl]) code_simp
    subgoal by (subst W [OF d2 refl]) code_simp
    subgoal by (subst W [OF d3 refl]) code_simp
    subgoal by (subst W [OF d4 refl]) code_simp
    subgoal by (subst W [OF d5 refl]) code_simp
    done
qed

subsection \<open>One iteration of the dispatch loop\<close>

lemma getitem_fst: "fst (getitem ts u) = task_state ts u"
  by (simp add: getitem_def task_state_def split: option.splits)

lemma getitem_snd: "map_of (snd (getitem ts u)) = (map_of ts)(u \<mapsto> task_state ts u)"
  by (auto simp: getitem_def task_state_def fun_eq_iff map_add_def split: option.splits)

lemma task_state_getitem: "task_state (snd (getitem ts u)) = task_state ts"
  by (auto simp: fun_eq_iff task_state_def getitem_snd split: option.splits)

lemma get_upstream_states_task_state:
  "get_upstream_states es us ts = (us', ts') \<Longrightarrow> task_state ts' = task_state ts"
proof (induction es arbitrary: us ts)
  case Nil
  then show ?case by simp
next
  case (Cons e es)
  obtain v ts1 where g: "getitem ts (upstream_task e) = (v, ts1)"
    by (cases "getitem ts (upstream_task e)")
  with Cons.prems have "get_upstream_states es (AList.update e v us) ts1 = (us', ts')"
    by simp
  then have "task_state ts' = task_state ts1"
    by (rule Cons.IH)
  moreover have "task_state ts1 = task_state ts"
    using task_state_getitem [of ts "upstream_task e"] g by simp
  ultimately show ?case by simp
qed

lemma get_upstream_states_map_of:
  "get_upstream_states es us ts = (us', ts') \<Longrightarrow>
   map_of ts' x =
     (if x \<in> upstream_task ` set es \<and> map_of ts x = None then Some default_state
      else map_of ts x)"
proof (induction es arbitrary: us ts)
  case Nil
  then show ?case by simp
next
  case (Cons e es)
  obtain v ts1 where g: "getitem ts (upstream_task e) = (v, ts1)"
    by (cases "getitem ts (upstream_task e)")
  with Cons.prems have r: "get_upstream_states es (AList.update e v us) ts1 = (us', ts')"
    by simp
  have m: "map_of ts1 = (map_of ts)(upstream_task e \<mapsto> task_state ts (upstream_task e))"
    using getitem_snd [of ts "upstream_task e"] g by simp
  show ?case
    unfolding Cons.IH [OF r] m
    by (auto simp: task_state_def split: option.splits)
qed

lemma get_upstream_states_upstream:
  "get_upstream_states es us ts = (us', ts') \<Longrightarrow>
   map_of us' e =
     (if e \<in> set es then Some (task_state ts (upstream_task e)) else map_of us e)"
proof (induction es arbitrary: us ts)
  case Nil
  then show ?case by simp
next
  case (Cons e' es)
  obtain v ts1 where g: "getitem ts (upstream_task e') = (v, ts1)"
    by (cases "getitem ts (upstream_task e')")
  with Cons.prems have r: "get_upstream_states es (AList.update e' v us) ts1 = (us', ts')"
    by simp
  have v: "v = task_state ts (upstream_task e')"
    using getitem_fst [of ts "upstream_task e'"] g by simp
  have t: "task_state ts1 = task_state ts"
    using task_state_getitem [of ts "upstream_task e'"] g by simp
  show ?case
    unfolding Cons.IH [OF r] t
    by (simp add: update_conv' v)
qed

lemma get_upstream_states_distinct:
  "get_upstream_states es us ts = (us', ts') \<Longrightarrow> distinct (map fst us) \<Longrightarrow>
   distinct (map fst us')"
proof (induction es arbitrary: us ts)
  case Nil
  then show ?case by simp
next
  case (Cons e es)
  obtain v ts1 where g: "getitem ts (upstream_task e) = (v, ts1)"
    by (cases "getitem ts (upstream_task e)")
  with Cons.prems have r: "get_upstream_states es (AList.update e v us) ts1 = (us', ts')"
    by simp
  show ?case
    by (rule Cons.IH [OF r]) (simp add: distinct_update Cons.prems)
qed

lemma map_of_rev_distinct: "distinct (map fst xs) \<Longrightarrow> map_of (rev xs) = map_of xs"
  by (subst map_of_inject_set) (simp_all add: rev_map [symmetric])

lemma map_of_upstream_mapped:
  "map_of (upstream_mapped f us) e =
     (if task_info f (upstream_task e) then map_option (\<lambda>fu. Val (wait fu)) (map_of us e)
      else None)"
  unfolding upstream_mapped_def
  by (induction us) auto

lemma distinct_upstream_mapped:
  "distinct (map fst us) \<Longrightarrow> distinct (map fst (upstream_mapped f us))"
  unfolding upstream_mapped_def
  by (induction us) (auto simp: image_iff)

lemma map_of_waited_upstream:
  assumes "distinct (map fst us)"
  shows "map_of (dict_update us (upstream_mapped f us)) e =
     (if task_info f (upstream_task e) then map_option (\<lambda>fu. Val (wait fu)) (map_of us e)
      else map_of us e)"
  using assms
  by (auto simp: map_of_dict_update map_of_rev_distinct distinct_upstream_mapped
      map_of_upstream_mapped map_add_def split: option.splits)

lemma set_wait_events:
  "distinct (map fst us) \<Longrightarrow>
   set (wait_events f us) =
     {Wait fu | e fu. map_of us e = Some fu \<and> task_info f (upstream_task e)}"
  unfolding wait_events_def
  by (auto simp: image_iff intro: map_of_SomeD)

lemma dispatched_append: "dispatched (xs @ ys) = dispatched xs @ dispatched ys"
  by (simp add: dispatched_def List.map_filter_def)

lemma dispatched_wait_events: "dispatched (wait_events f us) = []"
  unfolding wait_events_def dispatched_def List.map_filter_def
  by (induction us) auto

lemma dispatched_simps:
  "dispatched [] = []"
  "dispatched (Submit t c # evs) = t # dispatched evs"
  "dispatched (MapCall t c # evs) = t # dispatched evs"
  "dispatched (Wait fu # evs) = dispatched evs"
  "dispatched (WaitAll ts # evs) = dispatched evs"
  by (simp_all add: dispatched_def List.map_filter_simps)

lemma dispatch_task_Inl:
  "dispatch_task self ex st tc ctx qs ts t = (evs, Inl e) \<Longrightarrow> e = AssertionError \<and> evs = []"
  by (rule dispatch_task_error)

lemma dispatch_task_Inr:
  assumes d: "dispatch_task self ex st tc ctx qs ts t = (evs, Inr ts')"
  shows "\<exists>c ws v.
     evs = ws @ [if task_info (flow self) t then MapCall t c else Submit t c] \<and>
     set ws = (if task_info (flow self) t then {}
               else {Wait (task_state ts (upstream_task e)) | e.
                       e \<in> set (edges_to (flow self) t) \<and> task_info (flow self) (upstream_task e)}) \<and>
     dispatched ws = [] \<and>
     (\<forall>e. map_of (upstream_states c) e =
        (if e \<in> set (edges_to (flow self) t) then
           Some (if \<not> task_info (flow self) t \<and> task_info (flow self) (upstream_task e)
                 then Val (wait (task_state ts (upstream_task e)))
                 else task_state ts (upstream_task e))
         else None)) \<and>
     ignore_trigger c = (t \<in> set st) \<and>
     harvest_inputs st (snd (get_upstream_states (edges_to (flow self) t) [] ts)) t =
       Inr (inputs c) \<and>
     (\<forall>x. map_of ts' x =
        (if x = t then Some (Fut v)
         else if x \<in> upstream_task ` set (edges_to (flow self) t) \<and> map_of ts x = None
              then Some default_state
         else map_of ts x))"
proof -
  let ?f = "flow self"
  let ?es = "edges_to ?f t"
  obtain us ts1 where g: "get_upstream_states ?es [] ts = (us, ts1)"
    by (cases "get_upstream_states ?es [] ts")
  have us: "map_of us e = (if e \<in> set ?es then Some (task_state ts (upstream_task e)) else None)"
    for e
    using get_upstream_states_upstream [OF g, of e] by simp
  have dus: "distinct (map fst us)"
    using get_upstream_states_distinct [OF g] by simp
  have ts1: "map_of ts1 x =
      (if x \<in> upstream_task ` set ?es \<and> map_of ts x = None then Some default_state
       else map_of ts x)" for x
    by (rule get_upstream_states_map_of [OF g])
  from d g obtain inp where h: "harvest_inputs st ts1 t = Inr inp"
    by (auto simp: dispatch_task_def split: sum.splits)
  let ?c = "\<lparr>call_state = map_of ts1 t, upstream_states = us, inputs = inp,
      ignore_trigger = (t \<in> set st),
      call_context = dict_update ctx (case map_of tc t of None \<Rightarrow> [] | Some d \<Rightarrow> d),
      call_queues = task_queues qs t\<rparr>"
  show ?thesis
  proof (cases "task_info ?f t")
    case True
    with d g h have e: "evs = [MapCall t ?c]"
      and t': "ts' = AList.update t (executor_map ex (task_runner_cls self t) ?c) ts1"
      by (simp_all add: dispatch_task_def Let_def)
    show ?thesis
      apply (rule exI [of _ ?c], rule exI [of _ "[]"],
          rule exI [of _ "map_states ex (task_runner_cls self t) ?c"])
      using True e g h
      by (auto simp: us t' update_conv' ts1 executor_map_def dispatched_simps)
  next
    case False
    let ?c' = "?c\<lparr>upstream_states := dict_update us (upstream_mapped ?f us)\<rparr>"
    from False d g h have e: "evs = wait_events ?f us @ [Submit t ?c']"
      and t': "ts' = AList.update t (submit ex (task_runner_cls self t) ?c') ts1"
      by (simp_all add: dispatch_task_def Let_def)
    have w: "set (wait_events ?f us) =
        {Wait (task_state ts (upstream_task e)) | e.
           e \<in> set ?es \<and> task_info ?f (upstream_task e)}"
      unfolding set_wait_events [OF dus] by (auto simp: us split: if_splits)
    show ?thesis
      apply (rule exI [of _ ?c'], rule exI [of _ "wait_events ?f us"],
          rule exI [of _ "task_runner_cls self t ?c'"])
      using False e g h w
      by (auto simp: map_of_waited_upstream [OF dus] us t' update_conv' ts1 submit_def
          dispatched_wait_events)
  qed
qed

lemma task_state_eqI:
  "map_of ts' x = (if map_of ts x = None then Some default_state else map_of ts x) \<or>
   map_of ts' x = map_of ts x \<Longrightarrow> task_state ts' x = task_state ts x"
  by (auto simp: task_state_def split: option.splits)

lemma dispatch_loop_states:
  "dispatch_loop (dispatch_task self ex st tc ctx qs) pre ts0 = (evs, Inr ts) \<Longrightarrow>
   dispatched evs = pre \<and>
   (\<forall>u \<in> set pre. \<exists>v. map_of ts u = Some (Fut v)) \<and>
   (\<forall>u. u \<notin> set pre \<longrightarrow> task_state ts u = task_state ts0 u) \<and>
   (\<forall>u. u \<notin> set pre \<longrightarrow> map_of ts0 u \<noteq> None \<longrightarrow> map_of ts u = map_of ts0 u) \<and>
   (\<forall>u. map_of ts u = None \<longrightarrow> map_of ts0 u = None \<and> u \<notin> set pre)"
proof (induction pre arbitrary: ts0 evs)
  case Nil
  then show ?case by (simp add: dispatched_simps)
next
  case (Cons t pre)
  let ?step = "dispatch_task self ex st tc ctx qs"
  from Cons.prems obtain e1 ts1 e2 where s1: "?step ts0 t = (e1, Inr ts1)"
    and l: "dispatch_loop ?step pre ts1 = (e2, Inr ts)" and evs: "evs = e1 @ e2"
    by (auto split: prod.splits sum.splits)
  from dispatch_task_Inr [OF s1] obtain c ws v where
    e1: "e1 = ws @ [if task_info (flow self) t then MapCall t c else Submit t c]"
    and ws: "dispatched ws = []"
    and m: "\<And>x. map_of ts1 x =
        (if x = t then Some (Fut v)
         else if x \<in> upstream_task ` set (edges_to (flow self) t) \<and> map_of ts0 x = None
              then Some default_state
         else map_of ts0 x)"
    by blast
  note ih = Cons.IH [OF l]
  have d: "dispatched evs = t # pre"
    using ih by (simp add: evs e1 dispatched_append ws dispatched_simps)
  have f: "\<exists>v. map_of ts u = Some (Fut v)" if "u \<in> set (t # pre)" for u
  proof (cases "u \<in> set pre")
    case True
    with ih show ?thesis by blast
  next
    case False
    with that have "u = t" by simp
    with False ih m [of t] show ?thesis by auto
  qed
  have k: "task_state ts u = task_state ts0 u" if "u \<notin> set (t # pre)" for u
  proof -
    from that have "task_state ts u = task_state ts1 u"
      using ih by simp
    also have "\<dots> = task_state ts0 u"
      using that m [of u] by (intro task_state_eqI) auto
    finally show ?thesis .
  qed
  have p: "map_of ts u = map_of ts0 u" if "u \<notin> set (t # pre)" "map_of ts0 u \<noteq> None" for u
    using that ih m [of u] by auto
  have n: "map_of ts0 u = None \<and> u \<notin> set (t # pre)" if "map_of ts u = None" for u
  proof -
    from that ih have "map_of ts1 u = None" "u \<notin> set pre"
      by auto
    with m [of u] show ?thesis
      by (auto split: if_splits)
  qed
  from d f k p n show ?case by blast
qed

lemma dispatch_loop_dispatched:
  "dispatch_loop (dispatch_task self ex st tc ctx qs) order ts0 = (evs, r) \<Longrightarrow>
   \<exists>rest. order = dispatched evs @ rest \<and> (\<forall>ts. r = Inr ts \<longrightarrow> rest = [])"
proof (induction order arbitrary: ts0 evs)
  case Nil
  then show ?case by (simp add: dispatched_simps)
next
  case (Cons t order)
  let ?step = "dispatch_task self ex st tc ctx qs"
  obtain e1 r1 where s1: "?step ts0 t = (e1, r1)"
    by (cases "?step ts0 t")
  show ?case
  proof (cases r1)
    case (Inl e)
    with s1 Cons.prems dispatch_task_Inl [of self ex st tc ctx qs ts0 t e1 e]
    show ?thesis by (auto simp: dispatched_simps)
  next
    case (Inr ts1)
    with s1 Cons.prems obtain e2 where l: "dispatch_loop ?step order ts1 = (e2, r)"
      and evs: "evs = e1 @ e2"
      by (auto split: prod.splits)
    from dispatch_task_Inr [OF s1 [unfolded Inr]] obtain c ws where
      e1: "e1 = ws @ [if task_info (flow self) t then MapCall t c else Submit t c]"
      and ws: "dispatched ws = []"
      by blast
    from Cons.IH [OF l] show ?thesis
      by (auto simp: evs e1 dispatched_append ws dispatched_simps)
  qed
qed

lemma update_fresh: "k \<notin> fst ` set al \<Longrightarrow> AList.update k v al = al @ [(k, v)]"
  by (induction al) auto

lemma dict_update_distinct:
  "distinct (map fst (acc @ d)) \<Longrightarrow> dict_update acc d = acc @ d"
  unfolding dict_update_def
proof (induction d arbitrary: acc)
  case Nil
  then show ?case by simp
next
  case (Cons x d)
  obtain k v where x: "x = (k, v)" by (cases x)
  from Cons.prems have "k \<notin> fst ` set acc"
    by (auto simp: x)
  then have u: "AList.update k v acc = acc @ [(k, v)]"
    by (rule update_fresh)
  from Cons.prems have "distinct (map fst ((acc @ [(k, v)]) @ d))"
    by (simp add: x)
  from Cons.IH [OF this] show ?case
    by (simp add: x u)
qed

lemma harvest_inputs_supplied:
  assumes "t \<in> set st" and "map_of ts t = Some supplied"
  shows "harvest_inputs st (snd (get_upstream_states es [] ts)) t =
     (case supplied of
        Val (Scalar s) \<Rightarrow>
          if isinstance_Pending s then Inr (dict_update [] (cached_inputs s))
          else Inl AssertionError
      | Val (Mapped xs) \<Rightarrow> Inr []
      | Fut v \<Rightarrow> Inl AssertionError)"
proof -
  obtain us ts1 where g: "get_upstream_states es [] ts = (us, ts1)"
    by (cases "get_upstream_states es [] ts")
  have m: "map_of ts1 t = Some supplied"
    using get_upstream_states_map_of [OF g, of t] assms(2) by simp
  then have "fst (getitem ts1 t) = supplied"
    by (simp add: getitem_fst task_state_def)
  with m assms(1) show ?thesis
    by (simp add: harvest_inputs_def g split: obj.splits tstate.splits)
qed

subsection \<open>Collecting the results\<close>

lemma return_states_Cons:
  "return_states fs (t # rt) =
     (case map_of fs t of None \<Rightarrow> return_states fs rt | Some v \<Rightarrow> (t, v) # return_states fs rt)"
  by (simp add: return_states_def List.map_filter_simps split: option.splits)

lemma map_of_return_states:
  "map_of (return_states fs rt) t = (if t \<in> set rt then map_of fs t else None)"
proof (induction rt)
  case Nil
  then show ?case by (simp add: return_states_def List.map_filter_simps)
next
  case (Cons a rt)
  then show ?case
    by (auto simp: return_states_Cons split: option.splits)
qed

lemma set_union: "set (union a b) = set a \<union> set b"
  by (auto simp: union_def)

lemma dispatch_tasks_dispatched:
  assumes "dispatch_tasks self ctx task_states start_tasks task_contexts ex throttle =
      (evs, Inr task_states')"
  shows "sorted_tasks (flow self) (or_else start_tasks []) = Some (dispatched evs)"
    and "set (dispatched evs) \<subseteq> set (map fst task_states')"
proof -
  from assms obtain order where o: "sorted_tasks (flow self) (or_else start_tasks []) = Some order"
    and l: "dispatch_loop (dispatch_task self ex (or_else start_tasks []) (or_else task_contexts [])
        ctx (make_queues (or_else throttle []))) order (or_else task_states []) =
      (evs, Inr task_states')"
    by (auto simp: dispatch_tasks_def Let_def split: option.splits)
  note inv = dispatch_loop_states [OF l]
  from inv o show "sorted_tasks (flow self) (or_else start_tasks []) = Some (dispatched evs)"
    by simp
  show "set (dispatched evs) \<subseteq> set (map fst task_states')"
  proof
    fix u
    assume "u \<in> set (dispatched evs)"
    with inv obtain v where "map_of task_states' u = Some (Fut v)"
      by auto
    then have "(u, Fut v) \<in> set task_states'"
      by (rule map_of_SomeD)
    then show "u \<in> set (map fst task_states')"
      by force
  qed
qed

lemma get_flow_run_state_result:
  assumes "is_running state"
    and "dispatch_tasks self ctx task_states start_tasks task_contexts ex throttle =
      (evs, Inr task_states')"
    and "collect_results (flow self) return_failed (pyset return_tasks) task_states' =
      (ev, final_states, return_tasks')"
  shows "\<exists>outcome. get_flow_run_state self ctx state task_states start_tasks return_tasks
      task_contexts ex return_failed throttle = (evs @ [ev], outcome) \<and>
    (\<forall>st. outcome = Inr st \<longrightarrow>
       result st = Some (ReturnStates (return_states final_states return_tasks')))"
  using assms
  by (auto simp: get_flow_run_state_def aggregate_classification mk_state_def
      split: prod.splits if_splits)

text \<open>
  Lines 357-373 in a call that reaches aggregation. With \<open>return_failed\<close> the one wait
  of the aggregation is on the states of all tasks in \<^verbatim>\<open>task_states\<close>, which include all
  dispatched tasks, and every task whose final state is of class \<open>Failed\<close> or
  \<open>Retrying\<close> is added to \<^verbatim>\<open>return_tasks\<close>; if the method returns a state, that task is in
  its result mapping. Without \<open>return_failed\<close> the wait is on the states of the
  terminal, reference and return tasks only.
\<close>

theorem return_failed_collection:
  assumes "is_running state"
    and "dispatch_tasks self ctx task_states start_tasks task_contexts ex throttle =
      (evs, Inr task_states')"
  shows "\<exists>waited final_states return_tasks' outcome.
    collect_results (flow self) return_failed (pyset return_tasks) task_states' =
      (WaitAll waited, final_states, return_tasks') \<and>
    get_flow_run_state self ctx state task_states start_tasks return_tasks task_contexts ex
      return_failed throttle = (evs @ [WaitAll waited], outcome) \<and>
    (if return_failed then
       waited = map fst task_states' \<and> set (dispatched evs) \<subseteq> set waited \<and>
       (\<forall>t. map_of final_states t = map_option wait (map_of task_states' t)) \<and>
       set (pyset return_tasks) \<subseteq> set return_tasks' \<and>
       (\<forall>t s. map_of final_states t = Some s \<and> is_failed_or_retrying s \<longrightarrow>
          t \<in> set return_tasks' \<and>
          (\<forall>st. outcome = Inr st \<longrightarrow>
             (\<exists>d. result st = Some (ReturnStates d) \<and> map_of d t = Some s)))
     else
       return_tasks' = pyset return_tasks \<and>
       set waited =
         set (terminal_tasks (flow self)) \<union> set (reference_tasks (flow self)) \<union>
         set return_tasks)"
proof -
  obtain ev final_states return_tasks' where
    c: "collect_results (flow self) return_failed (pyset return_tasks) task_states' =
      (ev, final_states, return_tasks')"
    by (cases "collect_results (flow self) return_failed (pyset return_tasks) task_states'")
  from get_flow_run_state_result [OF assms c] obtain outcome where
    g: "get_flow_run_state self ctx state task_states start_tasks return_tasks
      task_contexts ex return_failed throttle = (evs @ [ev], outcome)"
    and r: "\<And>st. outcome = Inr st \<Longrightarrow>
       result st = Some (ReturnStates (return_states final_states return_tasks'))"
    by blast
  show ?thesis
  proof (cases return_failed)
    case True
    let ?fs = "map (\<lambda>(t, fu). (t, wait fu)) task_states'"
    from c True have ev: "ev = WaitAll (map fst task_states')" and fs: "final_states = ?fs"
      and rt: "return_tasks' = union (pyset return_tasks)
        (map fst (filter (\<lambda>(t, s). is_failed_or_retrying s) ?fs))"
      by (auto simp: collect_results_def Let_def)
    have m: "map_of final_states t = map_option wait (map_of task_states' t)" for t
      by (simp add: fs map_of_map)
    have f: "t \<in> set return_tasks' \<and>
          (\<forall>st. outcome = Inr st \<longrightarrow>
             (\<exists>d. result st = Some (ReturnStates d) \<and> map_of d t = Some s))"
      if "map_of final_states t = Some s \<and> is_failed_or_retrying s" for t s
    proof -
      from that have "(t, s) \<in> set ?fs" "is_failed_or_retrying s"
        by (auto simp: fs dest: map_of_SomeD)
      then have "t \<in> set (map fst (filter (\<lambda>(t, s). is_failed_or_retrying s) ?fs))"
        by force
      then have 1: "t \<in> set return_tasks'"
        by (simp add: rt set_union)
      with that r show ?thesis
        by (auto simp: map_of_return_states)
    qed
    have "set (pyset return_tasks) \<subseteq> set return_tasks'"
      by (simp add: rt set_union)
    with True c g ev m f dispatch_tasks_dispatched(2) [OF assms(2)] show ?thesis
      by (intro exI [of _ "map fst task_states'"] exI [of _ final_states]
          exI [of _ return_tasks'] exI [of _ outcome]) simp
  next
    case False
    let ?w = "union (union (terminal_tasks (flow self)) (reference_tasks (flow self)))
      (pyset return_tasks)"
    from c False have ev: "ev = WaitAll ?w" and rt: "return_tasks' = pyset return_tasks"
      by (auto simp: collect_results_def Let_def)
    with False c g show ?thesis
      by (intro exI [of _ ?w] exI [of _ final_states]
          exI [of _ return_tasks'] exI [of _ outcome]) (simp add: set_union pyset_def)
  qed
qed

text \<open>
  Claim C5. At aggregation with \<open>return_failed\<close>, every task whose final state is
  \<open>Failed\<close> or \<open>Retrying\<close> is added to \<^verbatim>\<open>return_tasks\<close> and so appears in the returned
  result mapping. The code breaks this in a partial run: with the independent tasks
  \<open>A\<close> and \<open>B\<close>, a run that starts at \<open>B\<close> dispatches \<open>B\<close> only, \<open>B\<close> fails and is added
  to \<^verbatim>\<open>return_tasks\<close>, but \<^verbatim>\<open>final_states\<close> (line 358) has no entry for the terminal task
  \<open>A\<close>, line 376 raises \<open>KeyError\<close>, and \<open>run\<close> returns a \<open>Failed\<close> state without any
  result mapping.
\<close>

theorem return_failed_missing_state:
  "collect_results (flow ex_pair_runner) True []
     [(ex_B, Fut (Scalar (mk_state Failed None None)))] =
     (WaitAll [ex_B], [(ex_B, Scalar (mk_state Failed None None))], [ex_B]) \<and>
   get_flow_run_state ex_pair_runner [] ex_running None (Some [ex_B]) [] None ex_executor True
     None =
     ([Submit ex_B \<lparr>call_state = None, upstream_states = [], inputs = [], ignore_trigger = True,
         call_context = [], call_queues = []\<rparr>, WaitAll [ex_B]],
      Inl (Error KeyError)) \<and>
   snd (run ex_pair_runner ex_globals (ex_args_partial True)) =
     Inr (mk_state Failed (Some (Exc KeyError)) None) \<and>
   result (mk_state Failed (Some (Exc KeyError)) None :: flow_state) = None"
  by code_simp

text \<open>
  Claim C1. Every flow run that reaches aggregation ends in the state given by the
  ordered classification, with the \<open>return_states\<close> mapping as result. The code breaks
  this in the same partial run: with \<open>return_failed\<close> the terminal task \<open>A\<close> has no
  final state, no rule is applied, and \<open>run\<close> returns \<open>Failed\<close> with the \<open>KeyError\<close> as
  message and no result; without \<open>return_failed\<close> (lines 366-373 read \<^verbatim>\<open>task_states\<close>
  with its default) the same run is classified.
\<close>

theorem classification_missing_state:
  "dispatched (fst (run ex_pair_runner ex_globals (ex_args_partial True))) = [ex_B] \<and>
   snd (run ex_pair_runner ex_globals (ex_args_partial True)) =
     Inr (mk_state Failed (Some (Exc KeyError)) None) \<and>
   snd (run ex_pair_runner ex_globals (ex_args_partial False)) =
     Inr (mk_state Failed (Some (Text ''Some reference tasks failed.''))
       (Some (ReturnStates [])))"
  by code_simp

subsection \<open>The order of dispatch\<close>

lemma set_downstream_tasks: "set (downstream_tasks f t) = edge_rel f `` {t}"
  by (auto simp: downstream_tasks_def edge_rel_def image_iff)

lemma set_upstream_tasks: "set (upstream_tasks f t) = (edge_rel f)\<inverse> `` {t}"
  by (auto simp: upstream_tasks_def edges_to_def edge_rel_def image_iff)

lemma reachable_superset: "set seen \<union> set ws \<subseteq> set (reachable f seen ws)"
  by (induction f seen ws rule: reachable.induct) auto

lemma reachable_subset:
  "set (reachable f seen ws) \<subseteq> set seen \<union> (edge_rel f)\<^sup>* `` set ws"
proof (induction f seen ws rule: reachable.induct)
  case (1 f seen)
  then show ?case by simp
next
  case (2 f seen t ws)
  show ?case
  proof (cases "t \<in> set seen")
    case True
    with 2 show ?thesis by auto
  next
    case False
    have "(edge_rel f)\<^sup>* `` set (downstream_tasks f t) \<subseteq> (edge_rel f)\<^sup>* `` {t}"
      by (auto simp: set_downstream_tasks intro: converse_rtrancl_into_rtrancl)
    with False 2 show ?thesis by auto
  qed
qed

lemma reachable_closed:
  "\<forall>x \<in> set seen. edge_rel f `` {x} \<subseteq> set seen \<union> set ws \<Longrightarrow>
   \<forall>x \<in> set (reachable f seen ws). edge_rel f `` {x} \<subseteq> set (reachable f seen ws)"
proof (induction f seen ws rule: reachable.induct)
  case (1 f seen)
  then show ?case by simp
next
  case (2 f seen t ws)
  show ?case
  proof (cases "t \<in> set seen")
    case True
    with 2 show ?thesis by auto
  next
    case False
    have "\<forall>x \<in> set (seen @ [t]). edge_rel f `` {x} \<subseteq>
        set (seen @ [t]) \<union> set (downstream_tasks f t @ ws)"
      using "2.prems" by (auto simp: set_downstream_tasks)
    with False 2 show ?thesis by simp
  qed
qed

lemma reachable_distinct: "distinct seen \<Longrightarrow> distinct (reachable f seen ws)"
  by (induction f seen ws rule: reachable.induct) auto

lemma set_reachable: "set (reachable f [] roots) = (edge_rel f)\<^sup>* `` set roots"
proof
  show "set (reachable f [] roots) \<subseteq> (edge_rel f)\<^sup>* `` set roots"
    using reachable_subset [of f "[]" roots] by simp
  have closed: "\<forall>x \<in> set (reachable f [] roots). edge_rel f `` {x} \<subseteq> set (reachable f [] roots)"
    by (rule reachable_closed) simp
  have "y \<in> set (reachable f [] roots)" if "(x, y) \<in> (edge_rel f)\<^sup>*" "x \<in> set (reachable f [] roots)"
    for x y
    using that by (induction rule: rtrancl_induct) (use closed in auto)
  moreover have "set roots \<subseteq> set (reachable f [] roots)"
    using reachable_superset [of "[]" roots f] by simp
  ultimately show "(edge_rel f)\<^sup>* `` set roots \<subseteq> set (reachable f [] roots)"
    by auto
qed

lemma ready_subset: "set (ready f remaining) \<subseteq> set remaining"
  by (auto simp: ready_def)

lemma toposort_Some:
  assumes "toposort f remaining = Some xs" and "remaining \<noteq> []"
  obtains rest where "ready f remaining \<noteq> []"
    and "toposort f (filter (\<lambda>t. t \<notin> set (ready f remaining)) remaining) = Some rest"
    and "xs = ready f remaining @ rest"
  using assms by (subst (asm) toposort.simps) (auto split: if_splits)

lemma toposort_set: "toposort f remaining = Some xs \<Longrightarrow> set xs = set remaining"
proof (induction f remaining arbitrary: xs rule: toposort.induct)
  case (1 f remaining)
  show ?case
  proof (cases "remaining = []")
    case True
    with "1.prems" show ?thesis by (simp add: toposort.simps)
  next
    case False
    from "1.prems" False obtain rest where r: "ready f remaining \<noteq> []"
      and t: "toposort f (filter (\<lambda>t. t \<notin> set (ready f remaining)) remaining) = Some rest"
      and xs: "xs = ready f remaining @ rest"
      by (rule toposort_Some)
    from "1.IH" [OF False r t] have "set rest = set remaining - set (ready f remaining)"
      by auto
    with xs ready_subset [of f remaining] show ?thesis by auto
  qed
qed

lemma toposort_distinct:
  "toposort f remaining = Some xs \<Longrightarrow> distinct remaining \<Longrightarrow> distinct xs"
proof (induction f remaining arbitrary: xs rule: toposort.induct)
  case (1 f remaining)
  show ?case
  proof (cases "remaining = []")
    case True
    with "1.prems" show ?thesis by (simp add: toposort.simps)
  next
    case False
    from "1.prems"(1) False obtain rest where r: "ready f remaining \<noteq> []"
      and t: "toposort f (filter (\<lambda>t. t \<notin> set (ready f remaining)) remaining) = Some rest"
      and xs: "xs = ready f remaining @ rest"
      by (rule toposort_Some)
    from "1.prems"(2) have d: "distinct (filter (\<lambda>t. t \<notin> set (ready f remaining)) remaining)"
      by simp
    have "distinct rest"
      by (rule "1.IH" [OF False r t d])
    moreover have "set rest = set remaining - set (ready f remaining)"
      using toposort_set [OF t] by auto
    moreover have "distinct (ready f remaining)"
      using "1.prems"(2) by (simp add: ready_def)
    ultimately show ?thesis
      by (auto simp: xs)
  qed
qed

lemma toposort_order:
  "toposort f remaining = Some xs \<Longrightarrow> e \<in> set (edges f) \<Longrightarrow>
   upstream_task e \<in> set remaining \<Longrightarrow> downstream_task e \<in> set remaining \<Longrightarrow>
   dispatched_before xs (upstream_task e) (downstream_task e)"
proof (induction f remaining arbitrary: xs rule: toposort.induct)
  case (1 f remaining)
  let ?u = "upstream_task e" and ?v = "downstream_task e"
  let ?rd = "ready f remaining"
  let ?rem' = "filter (\<lambda>t. t \<notin> set ?rd) remaining"
  from "1.prems" have ne: "remaining \<noteq> []"
    by auto
  from "1.prems"(1) ne obtain rest where r: "?rd \<noteq> []"
    and t: "toposort f ?rem' = Some rest" and xs: "xs = ?rd @ rest"
    by (rule toposort_Some)
  have "?u \<in> set (upstream_tasks f ?v)"
    using "1.prems"(2) by (auto simp: upstream_tasks_def edges_to_def)
  with "1.prems"(3) have v: "?v \<notin> set ?rd"
    by (auto simp: ready_def)
  with "1.prems"(4) have v': "?v \<in> set ?rem'"
    by simp
  then have vr: "?v \<in> set rest"
    using toposort_set [OF t] by simp
  have "x \<noteq> ?v" if "x \<in> set ?rd" for x
    using that v by auto
  then have tw: "takeWhile (\<lambda>x. x \<noteq> ?v) xs = ?rd @ takeWhile (\<lambda>x. x \<noteq> ?v) rest"
    by (simp add: xs takeWhile_append2)
  show ?case
  proof (cases "?u \<in> set ?rd")
    case True
    with tw vr show ?thesis
      by (simp add: dispatched_before_def xs)
  next
    case False
    with "1.prems"(3) have "?u \<in> set ?rem'"
      by simp
    from "1.IH" [OF ne r t "1.prems"(2) this v']
    have "dispatched_before rest ?u ?v" .
    with tw show ?thesis
      by (simp add: dispatched_before_def xs)
  qed
qed

lemma toposort_acyclic:
  "acyclic (edge_rel f) \<Longrightarrow> \<exists>xs. toposort f remaining = Some xs"
proof (induction f remaining rule: toposort.induct)
  case (1 f remaining)
  show ?case
  proof (cases "remaining = []")
    case True
    then show ?thesis by (simp add: toposort.simps)
  next
    case False
    have "finite (edge_rel f)"
      by (simp add: edge_rel_def)
    then have "wf (edge_rel f)"
      using "1.prems" by (rule finite_acyclic_wf)
    moreover from False obtain x where "x \<in> set remaining"
      by (cases remaining) auto
    ultimately obtain z where z: "z \<in> set remaining"
      and m: "\<And>y. (y, z) \<in> edge_rel f \<Longrightarrow> y \<notin> set remaining"
      by (rule wfE_min) blast
    have "z \<in> set (ready f remaining)"
      using z m by (auto simp: ready_def set_upstream_tasks)
    then have r: "ready f remaining \<noteq> []"
      by auto
    from "1.IH" [OF False r "1.prems"] obtain rest where
      "toposort f (filter (\<lambda>t. t \<notin> set (ready f remaining)) remaining) = Some rest"
      by blast
    with False r show ?thesis
      by (subst toposort.simps) simp
  qed
qed

lemma not_dispatched_before_both:
  "dispatched_before xs u v \<Longrightarrow> \<not> dispatched_before xs v u"
proof (induction xs)
  case Nil
  then show ?case by (simp add: dispatched_before_def)
next
  case (Cons x xs)
  then show ?case
    by (auto simp: dispatched_before_def split: if_splits)
qed

lemma dispatched_before_prefix:
  "dispatched_before (ys @ rest) u v \<Longrightarrow> v \<in> set ys \<Longrightarrow> dispatched_before ys u v"
  by (simp add: dispatched_before_def takeWhile_append1)

lemma sorted_tasks_props:
  assumes "sorted_tasks f roots = Some order"
  shows "distinct order"
    and "set order = (edge_rel f)\<^sup>* `` set (if roots = [] then root_tasks f else roots)"
    and "\<forall>e \<in> set (edges f). upstream_task e \<in> set order \<and> downstream_task e \<in> set order \<longrightarrow>
      dispatched_before order (upstream_task e) (downstream_task e)"
proof -
  let ?r = "reachable f [] (if roots = [] then root_tasks f else roots)"
  from assms have t: "toposort f ?r = Some order"
    by (simp add: sorted_tasks_def)
  have d: "distinct ?r"
    by (rule reachable_distinct) simp
  show "distinct order"
    by (rule toposort_distinct [OF t d])
  have s: "set order = set ?r"
    by (rule toposort_set [OF t])
  then show "set order = (edge_rel f)\<^sup>* `` set (if roots = [] then root_tasks f else roots)"
    by (simp only: set_reachable)
  show "\<forall>e \<in> set (edges f). upstream_task e \<in> set order \<and> downstream_task e \<in> set order \<longrightarrow>
      dispatched_before order (upstream_task e) (downstream_task e)"
    using toposort_order [OF t] s by blast
qed

lemma sorted_tasks_acyclic: "acyclic (edge_rel f) \<Longrightarrow> \<exists>order. sorted_tasks f roots = Some order"
  by (simp add: sorted_tasks_def toposort_acyclic)

lemma dispatch_tasks_prefix:
  assumes "dispatch_tasks self ctx task_states start_tasks task_contexts ex throttle = (evs, r)"
  shows "dispatched evs = [] \<or>
    (\<exists>rest. sorted_tasks (flow self) (or_else start_tasks []) = Some (dispatched evs @ rest))"
proof (cases "sorted_tasks (flow self) (or_else start_tasks [])")
  case None
  with assms show ?thesis
    by (auto simp: dispatch_tasks_def Let_def dispatched_simps)
next
  case (Some order)
  with assms have "dispatch_loop (dispatch_task self ex (or_else start_tasks [])
      (or_else task_contexts []) ctx (make_queues (or_else throttle []))) order
      (or_else task_states []) = (evs, r)"
    by (simp add: dispatch_tasks_def Let_def)
  from dispatch_loop_dispatched [OF this] Some show ?thesis
    by auto
qed

lemma get_flow_run_state_dispatched:
  assumes "get_flow_run_state self ctx state task_states start_tasks return_tasks task_contexts
      ex return_failed throttle = (evs, r)"
  shows "dispatched evs = [] \<or>
    (\<exists>rest. sorted_tasks (flow self) (or_else start_tasks []) = Some (dispatched evs @ rest))"
proof (cases "is_running state")
  case False
  with assms show ?thesis
    by (simp add: get_flow_run_state_def dispatched_simps)
next
  case True
  obtain evs' r' where d: "dispatch_tasks self ctx task_states start_tasks task_contexts ex
      throttle = (evs', r')"
    by (cases "dispatch_tasks self ctx task_states start_tasks task_contexts ex throttle")
  have "dispatched evs = dispatched evs'"
    using assms True d
    by (auto simp: get_flow_run_state_def collect_results_def Let_def dispatched_append
        dispatched_simps split: sum.splits prod.splits if_splits)
  with dispatch_tasks_prefix [OF d] show ?thesis
    by simp
qed

lemma run_dispatched:
  assumes "run self g a = (evs, r)"
  shows "dispatched evs = [] \<or>
    (\<exists>rest. sorted_tasks (flow self) (or_else (arg_start_tasks a) []) =
       Some (dispatched evs @ rest))"
proof -
  have "evs = [] \<or> (\<exists>state r'. get_flow_run_state self (run_context self g a) state
      (arg_task_states a) (arg_start_tasks a) (pyset (or_else (arg_return_tasks a) []))
      (arg_task_contexts a)
      (case arg_executor a of None \<Rightarrow> DEFAULT_EXECUTOR g | Some e \<Rightarrow> e)
      (arg_return_failed a) (Some (effective_throttle self a)) = (evs, r'))"
    using assms
    by (auto simp: run_def try_body_def Let_def
        split: if_splits prod.splits sum.splits exn.splits)
  then show ?thesis
  proof
    assume "evs = []"
    then show ?thesis by (simp add: dispatched_simps)
  next
    assume "\<exists>state r'. get_flow_run_state self (run_context self g a) state
      (arg_task_states a) (arg_start_tasks a) (pyset (or_else (arg_return_tasks a) []))
      (arg_task_contexts a)
      (case arg_executor a of None \<Rightarrow> DEFAULT_EXECUTOR g | Some e \<Rightarrow> e)
      (arg_return_failed a) (Some (effective_throttle self a)) = (evs, r')"
    then obtain state r' where "get_flow_run_state self (run_context self g a) state
      (arg_task_states a) (arg_start_tasks a) (pyset (or_else (arg_return_tasks a) []))
      (arg_task_contexts a)
      (case arg_executor a of None \<Rightarrow> DEFAULT_EXECUTOR g | Some e \<Rightarrow> e)
      (arg_return_failed a) (Some (effective_throttle self a)) = (evs, r')"
      by blast
    from get_flow_run_state_dispatched [OF this] show ?thesis .
  qed
qed

text \<open>
  Claim C6, as the code has it. In every flow run each task is dispatched at most
  once; for every edge \<open>u \<rightarrow> v\<close> between dispatched tasks, \<open>u\<close> is dispatched before \<open>v\<close>;
  no task is dispatched before one of its upstream tasks that is dispatched in the run;
  and the dispatched tasks are an initial part of \<open>sorted_tasks\<close>, whose tasks are
  exactly those reachable from the start tasks (from the root tasks when none are
  given).
\<close>

theorem topological_dispatch:
  assumes "run self g a = (evs, r)"
  shows "distinct (dispatched evs) \<and>
    (\<forall>e \<in> set (edges (flow self)).
       upstream_task e \<in> set (dispatched evs) \<and> downstream_task e \<in> set (dispatched evs) \<longrightarrow>
       dispatched_before (dispatched evs) (upstream_task e) (downstream_task e)) \<and>
    (\<forall>e \<in> set (edges (flow self)).
       \<not> dispatched_before (dispatched evs) (downstream_task e) (upstream_task e)) \<and>
    (dispatched evs = [] \<or>
     (\<exists>rest. sorted_tasks (flow self) (or_else (arg_start_tasks a) []) =
         Some (dispatched evs @ rest) \<and>
       set (dispatched evs @ rest) =
         (edge_rel (flow self))\<^sup>* ``
           set (if or_else (arg_start_tasks a) [] = [] then root_tasks (flow self)
                else or_else (arg_start_tasks a) [])))"
proof (cases "dispatched evs = []")
  case True
  then show ?thesis
    by (simp add: dispatched_before_def)
next
  case False
  let ?f = "flow self"
  let ?ds = "dispatched evs"
  from run_dispatched [OF assms] False obtain rest where
    s: "sorted_tasks ?f (or_else (arg_start_tasks a) []) = Some (?ds @ rest)"
    by blast
  note p = sorted_tasks_props [OF s]
  have 1: "distinct ?ds"
    using p(1) by simp
  have 2: "dispatched_before ?ds (upstream_task e) (downstream_task e)"
    if "e \<in> set (edges ?f)" "upstream_task e \<in> set ?ds" "downstream_task e \<in> set ?ds" for e
  proof -
    from p(3) that have "dispatched_before (?ds @ rest) (upstream_task e) (downstream_task e)"
      by auto
    then show ?thesis
      using that(3) by (rule dispatched_before_prefix)
  qed
  have 3: "\<not> dispatched_before ?ds (downstream_task e) (upstream_task e)"
    if "e \<in> set (edges ?f)" for e
  proof
    assume b: "dispatched_before ?ds (downstream_task e) (upstream_task e)"
    then have "upstream_task e \<in> set ?ds" "downstream_task e \<in> set ?ds"
      by (auto simp: dispatched_before_def dest: set_takeWhileD)
    from 2 [OF that this] b show False
      using not_dispatched_before_both by blast
  qed
  from 1 2 3 s p(2) show ?thesis
    by blast
qed

text \<open>The claim as stated fails in a partial run: started at \<open>N\<close>, the run dispatches
  \<open>N\<close> and \<open>C\<close>, while \<open>M\<close>, an upstream task of \<open>N\<close>, is never dispatched.\<close>

theorem topological_dispatch_counterexample:
  "ex_edge_MN \<in> set (edges (flow ex_runner)) \<and>
   dispatched (fst (run ex_runner ex_globals (no_args\<lparr>arg_start_tasks := Some [ex_N]\<rparr>))) =
     [ex_N, ex_C] \<and>
   downstream_task ex_edge_MN = ex_N \<and> upstream_task ex_edge_MN = ex_M \<and>
   ex_M \<notin> set [ex_N, ex_C]"
  by code_simp

theorem topological_dispatch_witness:
  "dispatched (fst (run ex_runner ex_globals no_args)) = [ex_A, ex_M, ex_N, ex_C] \<and>
   distinct (dispatched (fst (run ex_runner ex_globals no_args))) \<and>
   dispatched_before (dispatched (fst (run ex_runner ex_globals no_args))) ex_M ex_N \<and>
   \<not> dispatched_before (dispatched (fst (run ex_runner ex_globals no_args))) ex_N ex_M \<and>
   sorted_tasks (flow ex_runner) [] = Some [ex_A, ex_M, ex_N, ex_C]"
proof -
  let ?r = "run ex_runner ex_globals no_args"
  have h: "?r = (fst ?r, snd ?r)"
    by simp
  have d: "dispatched (fst ?r) = [ex_A, ex_M, ex_N, ex_C]"
    by code_simp
  have e: "ex_edge_MN \<in> set (edges (flow ex_runner))" "upstream_task ex_edge_MN = ex_M"
    "downstream_task ex_edge_MN = ex_N" "ex_M \<in> set [ex_A, ex_M, ex_N, ex_C]"
    "ex_N \<in> set [ex_A, ex_M, ex_N, ex_C]" "or_else (arg_start_tasks no_args) [] = []"
    by code_simp+
  from topological_dispatch [OF h] have
    1: "distinct (dispatched (fst ?r))" and
    2: "\<forall>e \<in> set (edges (flow ex_runner)).
       upstream_task e \<in> set (dispatched (fst ?r)) \<and> downstream_task e \<in> set (dispatched (fst ?r)) \<longrightarrow>
       dispatched_before (dispatched (fst ?r)) (upstream_task e) (downstream_task e)" and
    3: "\<forall>e \<in> set (edges (flow ex_runner)).
       \<not> dispatched_before (dispatched (fst ?r)) (downstream_task e) (upstream_task e)" and
    4: "dispatched (fst ?r) = [] \<or>
     (\<exists>rest. sorted_tasks (flow ex_runner) (or_else (arg_start_tasks no_args) []) =
         Some (dispatched (fst ?r) @ rest))"
    by blast+
  from 2 e d have 5: "dispatched_before (dispatched (fst ?r)) ex_M ex_N"
    by (metis (no_types, lifting))
  from 3 e have 6: "\<not> dispatched_before (dispatched (fst ?r)) ex_N ex_M"
    by (metis (no_types, lifting))
  have 7: "sorted_tasks (flow ex_runner) [] = Some [ex_A, ex_M, ex_N, ex_C]"
    by code_simp
  from d 1 5 6 7 show ?thesis
    by simp
qed

subsection \<open>The dispatch of a task in a run\<close>

lemma stored_None: "dispatched_task ev = None \<Longrightarrow> stored self ex ev = None"
  by (cases ev) simp_all

lemma states_after_append:
  "states_after self ex ts (xs @ ys) = states_after self ex (states_after self ex ts xs) ys"
  by (induction xs arbitrary: ts) simp_all

lemma dispatched_Nil_iff: "dispatched ws = [] \<longleftrightarrow> (\<forall>w \<in> set ws. dispatched_task w = None)"
  by (induction ws) (auto simp: dispatched_def List.map_filter_simps split: option.splits)

lemma states_after_waits: "dispatched ws = [] \<Longrightarrow> states_after self ex ts ws = ts"
  by (induction ws arbitrary: ts)
    (auto simp: dispatched_Nil_iff stored_None)

lemma task_state_update: "task_state (AList.update t v ts) = (task_state ts)(t := v)"
  by (auto simp: task_state_def fun_eq_iff update_conv')

lemma states_after_cong:
  "task_state A = task_state B \<Longrightarrow>
   task_state (states_after self ex A evs) = task_state (states_after self ex B evs)"
proof (induction evs arbitrary: A B)
  case Nil
  then show ?case by simp
next
  case (Cons ev evs)
  show ?case
  proof (cases "stored self ex ev")
    case None
    with Cons.IH [OF Cons.prems] show ?thesis by simp
  next
    case (Some p)
    obtain t v where p: "p = (t, v)" by (cases p)
    have "task_state (AList.update t v A) = task_state (AList.update t v B)"
      by (simp add: task_state_update Cons.prems)
    from Cons.IH [OF this] Some p show ?thesis by simp
  qed
qed

lemma dispatch_task_stored:
  assumes d: "dispatch_task self ex st tc ctx qs ts t = (evs, Inr ts')"
  shows "task_state ts' = task_state (states_after self ex ts evs)"
proof -
  let ?f = "flow self"
  let ?es = "edges_to ?f t"
  obtain us ts1 where g: "get_upstream_states ?es [] ts = (us, ts1)"
    by (cases "get_upstream_states ?es [] ts")
  have k: "task_state ts1 = task_state ts"
    by (rule get_upstream_states_task_state [OF g])
  from d g obtain inp where h: "harvest_inputs st ts1 t = Inr inp"
    by (auto simp: dispatch_task_def split: sum.splits)
  let ?c = "\<lparr>call_state = map_of ts1 t, upstream_states = us, inputs = inp,
      ignore_trigger = (t \<in> set st),
      call_context = dict_update ctx (case map_of tc t of None \<Rightarrow> [] | Some d \<Rightarrow> d),
      call_queues = task_queues qs t\<rparr>"
  show ?thesis
  proof (cases "task_info ?f t")
    case True
    with d g h have e: "evs = [MapCall t ?c]"
      and t': "ts' = AList.update t (executor_map ex (task_runner_cls self t) ?c) ts1"
      by (simp_all add: dispatch_task_def Let_def)
    show ?thesis
      by (simp add: e t' task_state_update k)
  next
    case False
    let ?c' = "?c\<lparr>upstream_states := dict_update us (upstream_mapped ?f us)\<rparr>"
    from False d g h have e: "evs = wait_events ?f us @ [Submit t ?c']"
      and t': "ts' = AList.update t (submit ex (task_runner_cls self t) ?c') ts1"
      by (simp_all add: dispatch_task_def Let_def)
    show ?thesis
      by (simp add: e t' task_state_update k states_after_append
          states_after_waits [OF dispatched_wait_events])
  qed
qed

lemma dispatch_loop_stored:
  "dispatch_loop (dispatch_task self ex st tc ctx qs) pre ts0 = (evs, Inr ts) \<Longrightarrow>
   task_state ts = task_state (states_after self ex ts0 evs)"
proof (induction pre arbitrary: ts0 evs)
  case Nil
  then show ?case by simp
next
  case (Cons t pre)
  let ?step = "dispatch_task self ex st tc ctx qs"
  from Cons.prems obtain e1 ts1 e2 where s1: "?step ts0 t = (e1, Inr ts1)"
    and l: "dispatch_loop ?step pre ts1 = (e2, Inr ts)" and evs: "evs = e1 @ e2"
    by (auto split: prod.splits sum.splits)
  have "task_state ts = task_state (states_after self ex ts1 e2)"
    by (rule Cons.IH [OF l])
  also have "\<dots> = task_state (states_after self ex (states_after self ex ts0 e1) e2)"
    by (rule states_after_cong) (rule dispatch_task_stored [OF s1])
  finally show ?case
    by (simp add: evs states_after_append)
qed

lemma dispatch_loop_last:
  "dispatch_loop (dispatch_task self ex st tc ctx qs) pre ts0 = (evs, Inr ts) \<Longrightarrow>
   evs = [] \<or> dispatched_task (last evs) \<noteq> None"
proof (induction pre arbitrary: ts0 evs)
  case Nil
  then show ?case by simp
next
  case (Cons t pre)
  let ?step = "dispatch_task self ex st tc ctx qs"
  from Cons.prems obtain e1 ts1 e2 where s1: "?step ts0 t = (e1, Inr ts1)"
    and l: "dispatch_loop ?step pre ts1 = (e2, Inr ts)" and evs: "evs = e1 @ e2"
    by (auto split: prod.splits sum.splits)
  from dispatch_task_Inr [OF s1] obtain c ws where
    e1: "e1 = ws @ [if task_info (flow self) t then MapCall t c else Submit t c]"
    by blast
  from Cons.IH [OF l] show ?case
    by (auto simp: evs e1)
qed

lemma split_at_dispatch:
  assumes "ws @ d # ys = b @ ev # a" and "dispatched ws = []" and "dispatched_task ev \<noteq> None"
  shows "(b = ws \<and> ev = d \<and> a = ys) \<or> (\<exists>b'. b = ws @ d # b' \<and> ys = b' @ ev # a)"
proof -
  from assms(2) have n: "\<forall>w \<in> set ws. dispatched_task w = None"
    by (simp add: dispatched_Nil_iff)
  from assms(1) consider us where "ws = b @ us" "us @ d # ys = ev # a"
    | us where "ws @ us = b" "d # ys = us @ ev # a"
    by (auto simp: append_eq_append_conv2)
  then show ?thesis
  proof cases
    case 1
    show ?thesis
    proof (cases us)
      case Nil
      with 1 show ?thesis by simp
    next
      case (Cons u us')
      with 1 have "ev \<in> set ws" by simp
      with n assms(3) show ?thesis by auto
    qed
  next
    case 2
    then show ?thesis
      by (cases us) auto
  qed
qed

lemma dispatch_loop_event:
  assumes "dispatch_loop (dispatch_task self ex st tc ctx qs) order ts0 = (evs, r)"
    and "evs = evs_before @ ev # evs_after" and "dispatched_task ev = Some t"
  shows "\<exists>pre post evs_pre ts ws ts'. order = pre @ t # post \<and>
      dispatch_loop (dispatch_task self ex st tc ctx qs) pre ts0 = (evs_pre, Inr ts) \<and>
      dispatch_task self ex st tc ctx qs ts t = (ws @ [ev], Inr ts') \<and>
      evs_before = evs_pre @ ws"
  using assms
proof (induction order arbitrary: ts0 evs evs_before)
  case Nil
  then show ?case by simp
next
  case (Cons x order)
  let ?step = "dispatch_task self ex st tc ctx qs"
  obtain e1 r1 where s1: "?step ts0 x = (e1, r1)"
    by (cases "?step ts0 x")
  show ?case
  proof (cases r1)
    case (Inl e)
    with s1 Cons.prems dispatch_task_Inl [of self ex st tc ctx qs ts0 x e1 e]
    show ?thesis by auto
  next
    case (Inr ts1)
    with s1 Cons.prems obtain e2 where l: "dispatch_loop ?step order ts1 = (e2, r)"
      and evs: "evs = e1 @ e2"
      by (auto split: prod.splits)
    from dispatch_task_Inr [OF s1 [unfolded Inr]] obtain c ws where
      e1: "e1 = ws @ [if task_info (flow self) x then MapCall x c else Submit x c]"
      and ws: "dispatched ws = []"
      by blast
    let ?d = "if task_info (flow self) x then MapCall x c else Submit x c"
    have dx: "dispatched_task ?d = Some x"
      by simp
    from Cons.prems(2) evs e1 have "ws @ ?d # e2 = evs_before @ ev # evs_after"
      by simp
    from split_at_dispatch [OF this ws] Cons.prems(3)
    consider "evs_before = ws" "ev = ?d" "evs_after = e2"
      | b' where "evs_before = ws @ ?d # b'" "e2 = b' @ ev # evs_after"
      by auto
    then show ?thesis
    proof cases
      case 1
      with dx Cons.prems(3) have "x = t" by simp
      with 1 s1 Inr e1 show ?thesis
        by (intro exI [of _ "[]"] exI [of _ order] exI [of _ ts0] exI [of _ ws] exI [of _ ts1])
          simp
    next
      case 2
      from Cons.IH [OF l 2(2) Cons.prems(3)] obtain pre post evs_pre ts ws' ts' where
        o: "order = pre @ t # post"
        and p: "dispatch_loop ?step pre ts1 = (evs_pre, Inr ts)"
        and q: "?step ts t = (ws' @ [ev], Inr ts')"
        and b: "b' = evs_pre @ ws'"
        by blast
      have "dispatch_loop ?step (x # pre) ts0 = (e1 @ evs_pre, Inr ts)"
        using s1 Inr p by simp
      with o q b 2(1) e1 show ?thesis
        by (intro exI [of _ "x # pre"] exI [of _ post] exI [of _ "e1 @ evs_pre"] exI [of _ ts]
            exI [of _ ws'] exI [of _ ts']) simp
    qed
  qed
qed

lemma get_flow_run_state_events:
  assumes "get_flow_run_state self ctx state task_states start_tasks return_tasks task_contexts
      ex return_failed throttle = (evs, r)"
    and "evs = evs_before @ ev # evs_after" and "dispatched_task ev = Some t"
  shows "\<exists>evs' r' a'. dispatch_tasks self ctx task_states start_tasks task_contexts ex throttle =
      (evs', r') \<and> evs' = evs_before @ ev # a'"
proof (cases "is_running state")
  case False
  with assms show ?thesis
    by (simp add: get_flow_run_state_def)
next
  case True
  obtain evs' r' where d: "dispatch_tasks self ctx task_states start_tasks task_contexts ex
      throttle = (evs', r')"
    by (cases "dispatch_tasks self ctx task_states start_tasks task_contexts ex throttle")
  show ?thesis
  proof (cases r')
    case (Inl e)
    with assms True d show ?thesis
      by (simp add: get_flow_run_state_def)
  next
    case (Inr ts')
    with assms(1) True d obtain w where "evs = evs' @ [WaitAll w]"
      by (auto simp: get_flow_run_state_def collect_results_def Let_def
          split: prod.splits if_splits)
    with assms(2) have e: "evs' @ [WaitAll w] = evs_before @ ev # evs_after"
      by simp
    show ?thesis
    proof (cases evs_after rule: rev_cases)
      case Nil
      with e assms(3) show ?thesis by auto
    next
      case (snoc a' x)
      with e have "evs' = evs_before @ ev # a'"
        by simp
      with d show ?thesis by blast
    qed
  qed
qed

lemma run_events:
  assumes "fst (run self g a) = evs_before @ ev # evs_after" and "dispatched_task ev = Some t"
  shows "\<exists>r' a'. dispatch_tasks self (run_context self g a) (arg_task_states a)
      (arg_start_tasks a) (arg_task_contexts a) (run_executor g a)
      (Some (effective_throttle self a)) = (evs_before @ ev # a', r')"
proof -
  let ?evs = "fst (run self g a)"
  have "?evs = [] \<or> (\<exists>state r'. get_flow_run_state self (run_context self g a) state
      (arg_task_states a) (arg_start_tasks a) (pyset (or_else (arg_return_tasks a) []))
      (arg_task_contexts a) (run_executor g a)
      (arg_return_failed a) (Some (effective_throttle self a)) = (?evs, r'))"
    by (auto simp: run_def try_body_def Let_def run_executor_def
        split: if_splits prod.splits sum.splits exn.splits)
  with assms(1) obtain state r' where "get_flow_run_state self (run_context self g a) state
      (arg_task_states a) (arg_start_tasks a) (pyset (or_else (arg_return_tasks a) []))
      (arg_task_contexts a) (run_executor g a)
      (arg_return_failed a) (Some (effective_throttle self a)) = (?evs, r')"
    by auto
  from get_flow_run_state_events [OF this assms] show ?thesis
    by blast
qed

lemma run_event:
  assumes "fst (run self g a) = evs_before @ ev # evs_after" and "dispatched_task ev = Some t"
  shows "\<exists>pre post evs_pre ts ws ts'.
      sorted_tasks (flow self) (or_else (arg_start_tasks a) []) = Some (pre @ t # post) \<and>
      dispatch_loop (run_step self g a) pre (or_else (arg_task_states a) []) = (evs_pre, Inr ts) \<and>
      run_step self g a ts t = (ws @ [ev], Inr ts') \<and>
      evs_before = evs_pre @ ws"
proof -
  from run_events [OF assms] obtain r' a' where
    d: "dispatch_tasks self (run_context self g a) (arg_task_states a)
      (arg_start_tasks a) (arg_task_contexts a) (run_executor g a)
      (Some (effective_throttle self a)) = (evs_before @ ev # a', r')"
    by blast
  then obtain order where o: "sorted_tasks (flow self) (or_else (arg_start_tasks a) []) = Some order"
    by (cases "sorted_tasks (flow self) (or_else (arg_start_tasks a) [])")
      (auto simp: dispatch_tasks_def Let_def)
  with d have l: "dispatch_loop (run_step self g a) order (or_else (arg_task_states a) []) =
      (evs_before @ ev # a', r')"
    by (simp add: dispatch_tasks_def Let_def run_step_def)
  from dispatch_loop_event [OF l [unfolded run_step_def] refl assms(2)] o show ?thesis
    unfolding run_step_def by blast
qed

lemma run_dispatch_event:
  assumes "fst (run self g a) = evs_before @ ev # evs_after"
    and "ev = Submit t c \<or> ev = MapCall t c"
  shows "\<exists>pre post evs_pre ws ts.
     sorted_tasks (flow self) (or_else (arg_start_tasks a) []) = Some (pre @ t # post) \<and>
     evs_before = evs_pre @ ws \<and>
     (evs_pre = [] \<or> dispatched_task (last evs_pre) \<noteq> None) \<and>
     dispatched evs_before = pre \<and>
     ev = (if task_info (flow self) t then MapCall t c else Submit t c) \<and>
     set ws = (if task_info (flow self) t then {}
               else {Wait (held_state self g a evs_before (upstream_task e)) | e.
                       e \<in> set (edges_to (flow self) t) \<and> task_info (flow self) (upstream_task e)}) \<and>
     (\<forall>e. map_of (upstream_states c) e =
        (if e \<in> set (edges_to (flow self) t) then
           Some (if \<not> task_info (flow self) t \<and> task_info (flow self) (upstream_task e)
                 then Val (wait (held_state self g a evs_before (upstream_task e)))
                 else held_state self g a evs_before (upstream_task e))
         else None)) \<and>
     ignore_trigger c = (t \<in> set (or_else (arg_start_tasks a) [])) \<and>
     harvest_inputs (or_else (arg_start_tasks a) [])
       (snd (get_upstream_states (edges_to (flow self) t) [] ts)) t = Inr (inputs c) \<and>
     (\<forall>u. held_state self g a evs_before u = task_state ts u) \<and>
     (\<forall>u \<in> set pre. \<exists>v. map_of ts u = Some (Fut v)) \<and>
     (\<forall>u. u \<notin> set pre \<longrightarrow> task_state ts u = task_state (or_else (arg_task_states a) []) u) \<and>
     (\<forall>u. u \<notin> set pre \<longrightarrow> map_of (or_else (arg_task_states a) []) u \<noteq> None \<longrightarrow>
        map_of ts u = map_of (or_else (arg_task_states a) []) u)"
proof -
  let ?ts0 = "or_else (arg_task_states a) []"
  let ?ex = "run_executor g a"
  from assms(2) have dt: "dispatched_task ev = Some t"
    by auto
  from run_event [OF assms(1) dt] obtain pre post evs_pre ts ws ts' where
    o: "sorted_tasks (flow self) (or_else (arg_start_tasks a) []) = Some (pre @ t # post)"
    and l: "dispatch_loop (run_step self g a) pre ?ts0 = (evs_pre, Inr ts)"
    and s: "run_step self g a ts t = (ws @ [ev], Inr ts')"
    and b: "evs_before = evs_pre @ ws"
    by blast
  note inv = dispatch_loop_states [OF l [unfolded run_step_def]]
  note la = dispatch_loop_last [OF l [unfolded run_step_def]]
  have k: "task_state ts = task_state (states_after self ?ex ?ts0 evs_pre)"
    by (rule dispatch_loop_stored [OF l [unfolded run_step_def]])
  from dispatch_task_Inr [OF s [unfolded run_step_def]] obtain c0 ws0 where
    e1: "ws @ [ev] = ws0 @ [if task_info (flow self) t then MapCall t c0 else Submit t c0]"
    and w0: "set ws0 = (if task_info (flow self) t then {}
               else {Wait (task_state ts (upstream_task e)) | e.
                       e \<in> set (edges_to (flow self) t) \<and> task_info (flow self) (upstream_task e)})"
    and dw: "dispatched ws0 = []"
    and up: "\<And>e. map_of (upstream_states c0) e =
        (if e \<in> set (edges_to (flow self) t) then
           Some (if \<not> task_info (flow self) t \<and> task_info (flow self) (upstream_task e)
                 then Val (wait (task_state ts (upstream_task e)))
                 else task_state ts (upstream_task e))
         else None)"
    and ig: "ignore_trigger c0 = (t \<in> set (or_else (arg_start_tasks a) []))"
    and ha: "harvest_inputs (or_else (arg_start_tasks a) [])
       (snd (get_upstream_states (edges_to (flow self) t) [] ts)) t = Inr (inputs c0)"
    by blast
  from e1 have ws: "ws = ws0"
    and ev: "ev = (if task_info (flow self) t then MapCall t c0 else Submit t c0)"
    by simp_all
  from ev assms(2) have c: "c0 = c"
    by (auto split: if_splits)
  have h: "held_state self g a evs_before u = task_state ts u" for u
    by (simp add: held_state_def b states_after_append ws states_after_waits [OF dw] k)
  have d: "dispatched evs_before = pre"
    using inv by (simp add: b dispatched_append ws dw)
  have 1: "ev = (if task_info (flow self) t then MapCall t c else Submit t c)"
    using ev by (simp only: c)
  have 2: "set ws = (if task_info (flow self) t then {}
               else {Wait (held_state self g a evs_before (upstream_task e)) | e.
                       e \<in> set (edges_to (flow self) t) \<and> task_info (flow self) (upstream_task e)})"
    unfolding h ws by (rule w0)
  have 3: "\<forall>e. map_of (upstream_states c) e =
        (if e \<in> set (edges_to (flow self) t) then
           Some (if \<not> task_info (flow self) t \<and> task_info (flow self) (upstream_task e)
                 then Val (wait (held_state self g a evs_before (upstream_task e)))
                 else held_state self g a evs_before (upstream_task e))
         else None)"
    unfolding h using up by (simp only: c) blast
  have 4: "ignore_trigger c = (t \<in> set (or_else (arg_start_tasks a) []))"
    using ig by (simp only: c)
  have 5: "harvest_inputs (or_else (arg_start_tasks a) [])
       (snd (get_upstream_states (edges_to (flow self) t) [] ts)) t = Inr (inputs c)"
    using ha by (simp only: c)
  have 6: "\<forall>u. held_state self g a evs_before u = task_state ts u"
    using h by blast
  from inv have 7: "\<forall>u \<in> set pre. \<exists>v. map_of ts u = Some (Fut v)"
    and 8: "\<forall>u. u \<notin> set pre \<longrightarrow> task_state ts u = task_state (or_else (arg_task_states a) []) u"
    and 9: "\<forall>u. u \<notin> set pre \<longrightarrow> map_of (or_else (arg_task_states a) []) u \<noteq> None \<longrightarrow>
        map_of ts u = map_of (or_else (arg_task_states a) []) u"
    by blast+
  from o b la d 1 2 3 4 5 6 7 8 9 show ?thesis
    by (intro exI [of _ pre] exI [of _ post] exI [of _ evs_pre] exI [of _ ws] exI [of _ ts] conjI)
qed

lemma collect_results_WaitAll:
  "\<exists>w fs rt. collect_results f rf rts ts = (WaitAll w, fs, rt)"
  by (simp add: collect_results_def Let_def)

lemma get_flow_run_state_KeyError:
  assumes "get_flow_run_state self ctx state ts st rt tc ex rf th = (evs, Inl (Error KeyError))"
  shows "\<exists>evs' w. evs = evs' @ [WaitAll w]"
proof -
  from assms have r: "is_running state"
    by (auto simp: get_flow_run_state_def split: if_splits)
  obtain evs' r' where d: "dispatch_tasks self ctx ts st tc ex th = (evs', r')"
    by (cases "dispatch_tasks self ctx ts st tc ex th")
  show ?thesis
  proof (cases r')
    case (Inl e)
    with d dispatch_tasks_error [of self ctx ts st tc ex th evs' e] assms r show ?thesis
      by (auto simp: get_flow_run_state_def)
  next
    case (Inr ts')
    obtain w fs rt' where "collect_results (flow self) rf (pyset rt) ts' = (WaitAll w, fs, rt')"
      using collect_results_WaitAll by blast
    with Inr d assms r show ?thesis
      by (auto simp: get_flow_run_state_def)
  qed
qed

lemma try_body_KeyError:
  assumes "try_body self g a = (evs, Inl (Error KeyError))"
  shows "\<exists>evs' w. evs = evs' @ [WaitAll w]"
proof -
  from assms obtain state r where "get_flow_run_state self (run_context self g a) state
      (arg_task_states a) (arg_start_tasks a) (pyset (or_else (arg_return_tasks a) []))
      (arg_task_contexts a)
      (case arg_executor a of None \<Rightarrow> DEFAULT_EXECUTOR g | Some e \<Rightarrow> e)
      (arg_return_failed a) (Some (effective_throttle self a)) = (evs, Inl (Error KeyError))"
    unfolding try_body_def Let_def
    by (auto simp: call_state_handlers_Error check_flow_is_pending_or_running_def
        set_flow_to_running_def split: sum.splits prod.splits if_splits)
  then show ?thesis
    by (rule get_flow_run_state_KeyError)
qed

lemma run_KeyError:
  assumes "snd (run self g a) = Inl KeyError"
  shows "\<exists>evs w. fst (run self g a) = evs @ [WaitAll w]"
proof -
  obtain evs r where t: "try_body self g a = (evs, r)"
    by (cases "try_body self g a")
  with assms have "r = Inl (Error KeyError) \<and> fst (run self g a) = evs"
    by (auto simp: run_def Let_def split: if_splits sum.splits exn.splits)
  with t try_body_KeyError [of self g a evs] show ?thesis
    by simp
qed

lemma sorted_tasks_distinct: "sorted_tasks f roots = Some order \<Longrightarrow> distinct order"
  by (rule sorted_tasks_props(1))

text \<open>
  Claim C10. In a run, let a task \<open>t\<close> be dispatched, by \<^verbatim>\<open>submit\<close> or \<^verbatim>\<open>map\<close> with the
  call \<open>c\<close>, after the events \<open>evs_before\<close>, and let \<open>e\<close> be an edge to \<open>t\<close> whose upstream
  task was neither supplied a state by the caller nor dispatched before. Then the
  upstream state that the call holds for \<open>e\<close> is the \<open>Failed\<close> state with message "Task
  state not available.", which is what \<^verbatim>\<open>task_states\<close> yields for the upstream task at
  that moment. No lookup of an upstream state raises: a \<open>KeyError\<close> leaves the \<^verbatim>\<open>try\<close>
  statement of \<^verbatim>\<open>run\<close> only after the wait of the aggregation, from the lookups of
  lines 376-379.
\<close>

theorem missing_upstream_state:
  assumes "fst (run self g a) = evs_before @ ev # evs_after"
    and "ev = Submit t c \<or> ev = MapCall t c"
    and "e \<in> set (edges_to (flow self) t)"
    and "map_of (or_else (arg_task_states a) []) (upstream_task e) = None"
    and "upstream_task e \<notin> set (dispatched evs_before)"
  shows "map_of (upstream_states c) e =
      Some (Val (Scalar (mk_state Failed (Some (Text ''Task state not available.'')) None))) \<and>
    held_state self g a evs_before (upstream_task e) =
      Val (Scalar (mk_state Failed (Some (Text ''Task state not available.'')) None)) \<and>
    (\<forall>evs. try_body self g a = (evs, Inl (Error KeyError)) \<longrightarrow>
       (\<exists>evs' w. evs = evs' @ [WaitAll w])) \<and>
    (snd (run self g a) = Inl KeyError \<longrightarrow> (\<exists>evs w. fst (run self g a) = evs @ [WaitAll w]))"
proof -
  let ?u = "upstream_task e"
  from run_dispatch_event [OF assms(1,2)] obtain pre ts where
    d: "dispatched evs_before = pre"
    and up: "\<And>e. map_of (upstream_states c) e =
        (if e \<in> set (edges_to (flow self) t) then
           Some (if \<not> task_info (flow self) t \<and> task_info (flow self) (upstream_task e)
                 then Val (wait (held_state self g a evs_before (upstream_task e)))
                 else held_state self g a evs_before (upstream_task e))
         else None)"
    and h: "\<And>u. held_state self g a evs_before u = task_state ts u"
    and k: "\<And>u. u \<notin> set pre \<Longrightarrow> task_state ts u = task_state (or_else (arg_task_states a) []) u"
    by blast
  have "held_state self g a evs_before ?u = default_state"
    using h [of ?u] k [of ?u] assms(4,5) d by (simp add: task_state_def)
  with up [of e] assms(3) have "map_of (upstream_states c) e =
      Some (Val (Scalar (mk_state Failed (Some (Text ''Task state not available.'')) None))) \<and>
    held_state self g a evs_before (upstream_task e) =
      Val (Scalar (mk_state Failed (Some (Text ''Task state not available.'')) None))"
    by (simp add: default_state_def)
  with try_body_KeyError [of self g a] run_KeyError [of self g a] show ?thesis
    by blast
qed

theorem missing_upstream_state_witness:
  "\<exists>c evs. fst (run ex_runner ex_globals ex_args_from_N) = MapCall ex_N c # evs \<and>
     map_of (upstream_states c) ex_edge_MN =
       Some (Val (Scalar (mk_state Failed (Some (Text ''Task state not available.'')) None)))"
proof -
  let ?evs = "fst (run ex_runner ex_globals ex_args_from_N)"
  let ?c = "the (event_call (hd ?evs))"
  have s: "?evs = MapCall ex_N ?c # tl ?evs"
    by code_simp
  then have h1: "?evs = [] @ MapCall ex_N ?c # tl ?evs"
    by simp
  have h2: "MapCall ex_N ?c = Submit ex_N ?c \<or> MapCall ex_N ?c = MapCall ex_N ?c"
    by simp
  have h3: "ex_edge_MN \<in> set (edges_to (flow ex_runner) ex_N)"
    by code_simp
  have h4: "map_of (or_else (arg_task_states ex_args_from_N) []) (upstream_task ex_edge_MN) = None"
    by code_simp
  have h5: "upstream_task ex_edge_MN \<notin> set (dispatched [])"
    by (simp add: dispatched_simps)
  from missing_upstream_state [OF h1 h2 h3 h4 h5] s show ?thesis
    by blast
qed

text \<open>
  Claim C4. In a run, let a task \<open>t\<close> be dispatched with the call \<open>c\<close> after the events
  \<open>evs_before\<close>; every task dispatched before holds a future in \<^verbatim>\<open>task_states\<close>. If \<open>t\<close>
  is mapped, the dispatch is a \<^verbatim>\<open>map\<close> call that directly follows the previous dispatch
  (or opens the run), so no wait is made for it, and every upstream state is passed as
  \<^verbatim>\<open>task_states\<close> holds it, a future as a future. If \<open>t\<close> is not mapped, the dispatch
  is a \<^verbatim>\<open>submit\<close>, the events since the previous dispatch are exactly the waits on the
  upstream states of the mapped upstream tasks, and the submitted call holds the waited
  value for each of them and every other upstream state as \<^verbatim>\<open>task_states\<close> holds it.
\<close>

theorem mapped_upstream_wait:
  assumes "fst (run self g a) = evs_before @ ev # evs_after"
    and "ev = Submit t c \<or> ev = MapCall t c"
  shows "(\<forall>u \<in> set (dispatched evs_before). \<exists>v. held_state self g a evs_before u = Fut v) \<and>
    (if task_info (flow self) t then
       ev = MapCall t c \<and>
       (evs_before = [] \<or> dispatched_task (last evs_before) \<noteq> None) \<and>
       (\<forall>e \<in> set (edges_to (flow self) t).
          map_of (upstream_states c) e =
            Some (held_state self g a evs_before (upstream_task e)))
     else
       ev = Submit t c \<and>
       (\<exists>evs_pre ws. evs_before = evs_pre @ ws \<and>
          (evs_pre = [] \<or> dispatched_task (last evs_pre) \<noteq> None) \<and>
          set ws = {Wait (held_state self g a evs_before (upstream_task e)) | e.
                      e \<in> set (edges_to (flow self) t) \<and>
                      task_info (flow self) (upstream_task e)}) \<and>
       (\<forall>e \<in> set (edges_to (flow self) t).
          map_of (upstream_states c) e =
            Some (if task_info (flow self) (upstream_task e)
                  then Val (wait (held_state self g a evs_before (upstream_task e)))
                  else held_state self g a evs_before (upstream_task e))))"
proof -
  from run_dispatch_event [OF assms] obtain pre evs_pre ws ts where
    b: "evs_before = evs_pre @ ws"
    and la: "evs_pre = [] \<or> dispatched_task (last evs_pre) \<noteq> None"
    and d: "dispatched evs_before = pre"
    and ev: "ev = (if task_info (flow self) t then MapCall t c else Submit t c)"
    and ws: "set ws = (if task_info (flow self) t then {}
               else {Wait (held_state self g a evs_before (upstream_task e)) | e.
                       e \<in> set (edges_to (flow self) t) \<and> task_info (flow self) (upstream_task e)})"
    and up: "\<And>e. map_of (upstream_states c) e =
        (if e \<in> set (edges_to (flow self) t) then
           Some (if \<not> task_info (flow self) t \<and> task_info (flow self) (upstream_task e)
                 then Val (wait (held_state self g a evs_before (upstream_task e)))
                 else held_state self g a evs_before (upstream_task e))
         else None)"
    and h: "\<And>u. held_state self g a evs_before u = task_state ts u"
    and f: "\<forall>u \<in> set pre. \<exists>v. map_of ts u = Some (Fut v)"
    by blast
  have 1: "\<forall>u \<in> set (dispatched evs_before). \<exists>v. held_state self g a evs_before u = Fut v"
    using f by (auto simp: h d task_state_def)
  show ?thesis
  proof (cases "task_info (flow self) t")
    case True
    with ws have "ws = []" by simp
    with b la have "evs_before = [] \<or> dispatched_task (last evs_before) \<noteq> None"
      by simp
    with True ev up 1 show ?thesis
      by simp
  next
    case False
    with b la ws have "\<exists>evs_pre ws. evs_before = evs_pre @ ws \<and>
          (evs_pre = [] \<or> dispatched_task (last evs_pre) \<noteq> None) \<and>
          set ws = {Wait (held_state self g a evs_before (upstream_task e)) | e.
                      e \<in> set (edges_to (flow self) t) \<and>
                      task_info (flow self) (upstream_task e)}"
      by (intro exI [of _ evs_pre] exI [of _ ws]) simp
    with False ev up 1 show ?thesis
      by simp
  qed
qed

theorem mapped_upstream_wait_witness:
  "\<exists>c1 c2 c3 c4 w. fst (run ex_runner ex_globals no_args) =
      [Submit ex_A c1, MapCall ex_M c2, MapCall ex_N c3,
       Wait (Fut (Mapped [Scalar (mk_state Failed None None)])), Submit ex_C c4, w] \<and>
     map_of (upstream_states c3) ex_edge_MN =
       Some (Fut (Mapped [Scalar (mk_state Success None None)])) \<and>
     map_of (upstream_states c4) ex_edge_NC =
       Some (Val (Mapped [Scalar (mk_state Failed None None)]))"
proof -
  let ?evs = "fst (run ex_runner ex_globals no_args)"
  let ?c1 = "the (event_call (?evs ! 0))"
  let ?c2 = "the (event_call (?evs ! 1))"
  let ?c3 = "the (event_call (?evs ! 2))"
  let ?c4 = "the (event_call (?evs ! 4))"
  let ?w = "Wait (Fut (Mapped [Scalar (mk_state Failed None None)]))"
  have s: "?evs = [Submit ex_A ?c1, MapCall ex_M ?c2, MapCall ex_N ?c3, ?w, Submit ex_C ?c4,
      ?evs ! 5]"
    by code_simp
  from s have h1: "?evs = [Submit ex_A ?c1, MapCall ex_M ?c2] @ MapCall ex_N ?c3 #
      [?w, Submit ex_C ?c4, ?evs ! 5]"
    by simp
  from s have h2: "?evs = [Submit ex_A ?c1, MapCall ex_M ?c2, MapCall ex_N ?c3, ?w] @
      Submit ex_C ?c4 # [?evs ! 5]"
    by simp
  have i: "task_info (flow ex_runner) ex_N" "\<not> task_info (flow ex_runner) ex_C"
    "ex_edge_MN \<in> set (edges_to (flow ex_runner) ex_N)"
    "ex_edge_NC \<in> set (edges_to (flow ex_runner) ex_C)"
    "task_info (flow ex_runner) (upstream_task ex_edge_NC)"
    "held_state ex_runner ex_globals no_args [Submit ex_A ?c1, MapCall ex_M ?c2]
       (upstream_task ex_edge_MN) = Fut (Mapped [Scalar (mk_state Success None None)])"
    "held_state ex_runner ex_globals no_args
       [Submit ex_A ?c1, MapCall ex_M ?c2, MapCall ex_N ?c3, ?w]
       (upstream_task ex_edge_NC) = Fut (Mapped [Scalar (mk_state Failed None None)])"
    by code_simp+
  have 1: "map_of (upstream_states ?c3) ex_edge_MN =
       Some (Fut (Mapped [Scalar (mk_state Success None None)]))"
    using mapped_upstream_wait [OF h1, of ex_N ?c3] i by simp
  have 2: "map_of (upstream_states ?c4) ex_edge_NC =
       Some (Val (Mapped [Scalar (mk_state Failed None None)]))"
    using mapped_upstream_wait [OF h2, of ex_C ?c4] i by simp
  from s 1 2 show ?thesis
    by blast
qed

text \<open>
  Lines 305-311 in a run: a start task for which the caller supplied a state is, when
  it is dispatched, dispatched with \<^verbatim>\<open>ignore_trigger\<close> set; a supplied single state is
  then of class \<open>Pending\<close> and a copy of its \<open>cached_inputs\<close> is passed as inputs (the
  \<open>cached_inputs\<close> themselves when their keys are distinct); a supplied list of states
  passes no inputs.
\<close>

theorem start_task_harvest:
  assumes "fst (run self g a) = evs_before @ ev # evs_after"
    and "ev = Submit t c \<or> ev = MapCall t c"
    and "t \<in> set (or_else (arg_start_tasks a) [])"
    and "map_of (or_else (arg_task_states a) []) t = Some supplied"
  shows "ignore_trigger c \<and>
    (case supplied of
       Val (Scalar s) \<Rightarrow>
         isinstance_Pending s \<and> inputs c = dict_update [] (cached_inputs s) \<and>
         (distinct (map fst (cached_inputs s)) \<longrightarrow> inputs c = cached_inputs s)
     | Val (Mapped xs) \<Rightarrow> inputs c = []
     | Fut v \<Rightarrow> False)"
proof -
  let ?ts0 = "or_else (arg_task_states a) []"
  from run_dispatch_event [OF assms(1,2)] obtain pre post ts where
    o: "sorted_tasks (flow self) (or_else (arg_start_tasks a) []) = Some (pre @ t # post)"
    and ig: "ignore_trigger c = (t \<in> set (or_else (arg_start_tasks a) []))"
    and ha: "harvest_inputs (or_else (arg_start_tasks a) [])
       (snd (get_upstream_states (edges_to (flow self) t) [] ts)) t = Inr (inputs c)"
    and k: "\<And>u. u \<notin> set pre \<Longrightarrow> map_of ?ts0 u \<noteq> None \<Longrightarrow> map_of ts u = map_of ?ts0 u"
    by blast
  from sorted_tasks_distinct [OF o] have "t \<notin> set pre"
    by simp
  with k [of t] assms(4) have m: "map_of ts t = Some supplied"
    by simp
  note h = harvest_inputs_supplied [OF assms(3) m, where es = "edges_to (flow self) t"]
  have "case supplied of
       Val (Scalar s) \<Rightarrow>
         isinstance_Pending s \<and> inputs c = dict_update [] (cached_inputs s) \<and>
         (distinct (map fst (cached_inputs s)) \<longrightarrow> inputs c = cached_inputs s)
     | Val (Mapped xs) \<Rightarrow> inputs c = []
     | Fut v \<Rightarrow> False"
  proof (cases supplied)
    case (Val x)
    show ?thesis
    proof (cases x)
      case (Scalar s)
      with h ha Val show ?thesis
        using dict_update_distinct [of "[]" "cached_inputs s"]
        by (auto split: if_splits)
    next
      case (Mapped xs)
      with h ha Val show ?thesis by simp
    qed
  next
    case (Fut v)
    with h ha show ?thesis by simp
  qed
  with ig assms(3) show ?thesis
    by simp
qed

theorem start_task_harvest_example:
  "\<exists>c evs. fst (run ex_runner ex_globals (ex_args_supplied ex_cached)) = MapCall ex_M c # evs \<and>
     ignore_trigger c \<and> inputs c = [(''x'', PInt 7)]"
proof -
  let ?evs = "fst (run ex_runner ex_globals (ex_args_supplied ex_cached))"
  let ?c = "the (event_call (hd ?evs))"
  have s: "?evs = MapCall ex_M ?c # tl ?evs"
    by code_simp
  then have h1: "?evs = [] @ MapCall ex_M ?c # tl ?evs"
    by simp
  have h2: "MapCall ex_M ?c = Submit ex_M ?c \<or> MapCall ex_M ?c = MapCall ex_M ?c"
    by simp
  have h3: "ex_M \<in> set (or_else (arg_start_tasks (ex_args_supplied ex_cached)) [])"
    by code_simp
  have h4: "map_of (or_else (arg_task_states (ex_args_supplied ex_cached)) []) ex_M =
      Some (Val (Scalar ex_cached))"
    by code_simp
  have i: "cached_inputs ex_cached = [(''x'', PInt 7)]"
    by code_simp
  from start_task_harvest [OF h1 h2 h3 h4] i have "ignore_trigger ?c \<and> inputs ?c = [(''x'', PInt 7)]"
    by (simp add: dict_update_def)
  with s show ?thesis
    by blast
qed

text \<open>
  Claim C9. A start task with an entry in the supplied \<^verbatim>\<open>task_states\<close> is dispatched
  with the \<open>cached_inputs\<close> of that entry as inputs. The code breaks this for a supplied
  state that is not of class \<open>Pending\<close>: in a run that starts at \<open>M\<close> with a supplied
  \<open>Cached\<close> (or \<open>Success\<close>) state carrying the cached inputs \<open>x = 7\<close>, the assertion of
  line 310 fails, no task is dispatched, and \<open>run\<close> returns \<open>Failed\<close> with the
  \<open>AssertionError\<close> as message. With a \<open>Pending\<close> state carrying the same cached inputs
  the run dispatches \<open>M\<close>, \<open>N\<close> and \<open>C\<close>, and \<open>M\<close> with the inputs \<open>x = 7\<close>.
\<close>

theorem start_task_supplied_state:
  "cached_inputs ex_cached_finished = [(''x'', PInt 7)] \<and>
   run ex_runner ex_globals (ex_args_supplied ex_cached_finished) =
     ([], Inr (mk_state Failed (Some (Exc AssertionError)) None)) \<and>
   run ex_runner ex_globals (ex_args_supplied ex_success_cached) =
     ([], Inr (mk_state Failed (Some (Exc AssertionError)) None)) \<and>
   dispatched (fst (run ex_runner ex_globals (ex_args_supplied ex_cached))) =
     [ex_M, ex_N, ex_C] \<and>
   map_option inputs (event_call (hd (fst (run ex_runner ex_globals (ex_args_supplied ex_cached))))) =
     Some [(''x'', PInt 7)]"
  by code_simp

end
